theory Spec2Isabelle
  imports Complex_Main "HOL-Library.AList" "HOL-Library.Char_ord" "HOL-Library.List_Lexorder"
begin

section \<open>Batch upload pipeline of the speech collector (main.py)\<close>

text \<open>
  The development embeds the batching core of \<^verbatim>\<open>main.py\<close>: \<^verbatim>\<open>get_batch_size\<close>,
  \<^verbatim>\<open>split_file\<close>, \<^verbatim>\<open>upload_batch\<close> and \<^verbatim>\<open>submit\<close>.

  Modelling decisions.
  \<^item> Bytes and text are \<open>char list\<close>: an Isabelle \<open>char\<close> is one byte, text is its UTF-8
    encoding (whose bytewise order is the code-point order Python sorts by).
  \<^item> A \<^verbatim>\<open>pathlib.Path\<close> is the list of its components below the root, as pathlib keeps it.
  \<^item> The file system is a finite association from paths to the contents of regular files.
    The directories are the root, \<^verbatim>\<open>/tmp\<close> and \<^verbatim>\<open>/tmp/quran_batch\<close> (the module creates the
    last one when it is loaded, and the program creates no other); symbolic links, permissions
    and full disks are outside the model.
  \<^item> The store (Supabase), the channel (Telegram), the clock and the \<^verbatim>\<open>zipfile\<close> writer are
    collaborators outside the repository: their answers are fields of an environment record,
    their inputs are logged in the state.
  \<^item> An exception is a value: a function that can raise returns its result together with the
    state reached when it raised.
\<close>

subsection \<open>Paths\<close>

type_synonym bytes = "char list"
type_synonym path = "string list"

datatype error = OSError | ValueError | OverflowError | MemoryError | StoreError

text \<open>\<^verbatim>\<open>Path(s)\<close> on POSIX: split at \<^verbatim>\<open>/\<close>, drop empty and \<^verbatim>\<open>.\<close> components.\<close>

fun split_sep :: "string \<Rightarrow> string list" where
  "split_sep [] = [[]]"
| "split_sep (c # cs) =
     (if c = CHR ''/'' then [] # split_sep cs
      else (c # hd (split_sep cs)) # tl (split_sep cs))"

definition path_parts :: "string \<Rightarrow> path" where
  "path_parts s = filter (\<lambda>w. w \<noteq> [] \<and> w \<noteq> ''.'') (split_sep s)"

text \<open>\<^verbatim>\<open>base / s\<close>: an absolute right operand replaces the left one.\<close>

definition joinpath :: "path \<Rightarrow> string \<Rightarrow> path" where
  "joinpath base s = (if s \<noteq> [] \<and> hd s = CHR ''/'' then path_parts s else base @ path_parts s)"

text \<open>\<^verbatim>\<open>PurePath.suffix\<close>: \<^verbatim>\<open>i = name.rfind('.')\<close>; the suffix is \<^verbatim>\<open>name[i:]\<close> when
  \<^verbatim>\<open>0 < i < len(name) - 1\<close>, else empty. \<open>after_dot\<close> is the number of characters behind the
  last dot.\<close>

definition after_dot :: "string \<Rightarrow> nat" where
  "after_dot name = length (takeWhile (\<lambda>c. c \<noteq> CHR ''.'') (rev name))"

definition path_suffix :: "string \<Rightarrow> string" where
  "path_suffix name =
     (if CHR ''.'' \<in> set name \<and> 0 < after_dot name \<and> Suc (after_dot name) < length name
      then drop (length name - Suc (after_dot name)) name else [])"

definition path_stem :: "string \<Rightarrow> string" where
  "path_stem name = take (length name - length (path_suffix name)) name"

text \<open>\<^verbatim>\<open>Path.with_suffix\<close>: raises \<^verbatim>\<open>ValueError\<close> on a path with an empty name.\<close>

definition with_suffix :: "path \<Rightarrow> string \<Rightarrow> error + path" where
  "with_suffix p suf =
     (if p = [] then Inl ValueError
      else Inr (butlast p @ [path_stem (last p) @ suf]))"

text \<open>\<^verbatim>\<open>fnmatch\<close> of a name against \<^verbatim>\<open>*.wav\<close>.\<close>

definition endswith :: "string \<Rightarrow> string \<Rightarrow> bool" where
  "endswith name suf = (take (length suf) (rev name) = rev suf)"

subsection \<open>Decimal formatting\<close>

definition digit_char :: "nat \<Rightarrow> char" where
  "digit_char d = ''0123456789'' ! d"

function dec :: "nat \<Rightarrow> string" where
  "dec n = (if n < 10 then [digit_char n] else dec (n div 10) @ [digit_char (n mod 10)])"
  by pat_completeness auto
termination
  by (relation "measure (\<lambda>n. n)") auto

declare dec.simps [simp del]

text \<open>\<^verbatim>\<open>f"{n:0wd}"\<close>: the decimal numeral, padded with zeros on the left to width \<open>w\<close>.\<close>

definition zfill :: "nat \<Rightarrow> nat \<Rightarrow> string" where
  "zfill w n = replicate (w - length (dec n)) (CHR ''0'') @ dec n"

text \<open>The value read back from a digit string, used to tell part names apart.\<close>

definition digit_val :: "char \<Rightarrow> nat" where
  "digit_val c = (of_char c - 48)"

definition dec_val :: "string \<Rightarrow> nat" where
  "dec_val s = foldl (\<lambda>a c. 10 * a + digit_val c) 0 s"

subsection \<open>File system\<close>

type_synonym fs = "(path \<times> bytes) list"

definition TEMP_DIR :: path where
  "TEMP_DIR = [''tmp'', ''quran_batch'']"

definition BATCH_SIZE_BYTES :: nat where
  "BATCH_SIZE_BYTES = 500 * 1024 * 1024"

definition CHUNK_SIZE_BYTES :: int where
  "CHUNK_SIZE_BYTES = 45 * 1024 * 1024"

text \<open>\<^verbatim>\<open>open(p, "rb").read()\<close> and \<^verbatim>\<open>p.stat()\<close>: \<open>None\<close> stands for the \<^verbatim>\<open>OSError\<close> raised when
  there is no such file.\<close>

definition read_bytes :: "fs \<Rightarrow> path \<Rightarrow> bytes option" where
  "read_bytes f p = map_of f p"

definition st_size :: "fs \<Rightarrow> path \<Rightarrow> nat option" where
  "st_size f p = map_option length (read_bytes f p)"

text \<open>\<^verbatim>\<open>p.write_bytes(d)\<close> and \<^verbatim>\<open>open(p, "wb")\<close>: create or truncate, then write.\<close>

definition write_bytes :: "fs \<Rightarrow> path \<Rightarrow> bytes \<Rightarrow> fs" where
  "write_bytes f p d = AList.update p d f"

text \<open>\<^verbatim>\<open>p.unlink(missing_ok=True)\<close>.\<close>

definition unlink_missing_ok :: "fs \<Rightarrow> path \<Rightarrow> fs" where
  "unlink_missing_ok f p = AList.delete p f"

text \<open>\<^verbatim>\<open>p.unlink()\<close>: raises when the file is missing.\<close>

definition unlink :: "fs \<Rightarrow> path \<Rightarrow> fs option" where
  "unlink f p = (if read_bytes f p = None then None else Some (AList.delete p f))"

definition files_of :: "fs \<Rightarrow> path list" where
  "files_of f = remdups (map fst f)"

text \<open>\<^verbatim>\<open>sorted(d.iterdir())\<close> and \<^verbatim>\<open>sorted(d.glob("*.wav"))\<close>: the entries directly in \<open>d\<close>.\<close>

definition iterdir :: "fs \<Rightarrow> path \<Rightarrow> path list" where
  "iterdir f d = sort (filter (\<lambda>p. p \<noteq> [] \<and> butlast p = d) (files_of f))"

definition glob_wav :: "fs \<Rightarrow> path \<Rightarrow> path list" where
  "glob_wav f d = filter (\<lambda>p. endswith (last p) ''.wav'') (iterdir f d)"

text \<open>\<^verbatim>\<open>d.rglob("*")\<close> filtered by \<^verbatim>\<open>is_file()\<close>: every file below \<open>d\<close>.\<close>

definition below :: "path \<Rightarrow> path \<Rightarrow> bool" where
  "below d p = (length d < length p \<and> take (length d) p = d)"

definition rglob_files :: "fs \<Rightarrow> path \<Rightarrow> path list" where
  "rglob_files f d = filter (below d) (files_of f)"

text \<open>\<^verbatim>\<open>shutil.rmtree(d)\<close> followed by \<^verbatim>\<open>d.mkdir(parents=True)\<close>.\<close>

definition rmtree_mkdir :: "fs \<Rightarrow> path \<Rightarrow> fs" where
  "rmtree_mkdir f d = filter (\<lambda>(p, _). \<not> below d p) f"

subsection \<open>Batch size helper\<close>

definition get_batch_size :: "fs \<Rightarrow> nat" where
  "get_batch_size f =
     sum_list (map (\<lambda>p. case read_bytes f p of Some d \<Rightarrow> length d | None \<Rightarrow> 0)
                   (rglob_files f TEMP_DIR))"

subsection \<open>ZIP chunker\<close>

text \<open>The open file of \<^verbatim>\<open>split_file\<close> is a \<^verbatim>\<open>BufferedReader\<close>: it holds bytes read ahead
  and not yet handed out, and the offset in the file its next raw read starts from.\<close>

record reader =
  buffered :: bytes
  raw_pos :: nat

definition file_content :: "fs \<Rightarrow> path \<Rightarrow> bytes" where
  "file_content f p = (case read_bytes f p of Some c \<Rightarrow> c | None \<Rightarrow> [])"

text \<open>\<^verbatim>\<open>sys.maxsize\<close> of a 64-bit CPython, and the header of a \<^verbatim>\<open>bytes\<close> object.\<close>

definition SSIZE_MAX :: int where
  "SSIZE_MAX = 2 ^ 63 - 1"

definition BYTES_HEADER :: int where
  "BYTES_HEADER = 33"

text \<open>\<^verbatim>\<open>f.read(n)\<close> (CPython, \<^verbatim>\<open>_bufferedreader_read_generic\<close>) on a file that now holds
  \<open>content\<close>, with a buffer of \<open>B\<close> bytes and at most \<open>M\<close> bytes to allocate for the result.
  A request the buffer covers is served from it. Otherwise the result is allocated, the
  buffered bytes are handed out, the whole blocks of the rest are read from the file, and the
  last partial block is served through a refill of the buffer. \<open>n = -1\<close> reads to the end;
  \<open>n < -1\<close> raises \<^verbatim>\<open>ValueError\<close>; \<open>n\<close> beyond \<^verbatim>\<open>sys.maxsize\<close>, or too large for a
  \<^verbatim>\<open>bytes\<close> object, raises \<^verbatim>\<open>OverflowError\<close>; a result that cannot be allocated raises
  \<^verbatim>\<open>MemoryError\<close>.\<close>

definition buffered_read ::
  "nat \<Rightarrow> nat \<Rightarrow> int \<Rightarrow> bytes \<Rightarrow> reader \<Rightarrow> error + (bytes \<times> reader)" where
  "buffered_read B M n content h =
     (if n < - 1 then Inl ValueError
      else if SSIZE_MAX < n then Inl OverflowError
      else if n = - 1 then
        (if M < length (buffered h @ drop (raw_pos h) content) then Inl MemoryError
         else Inr (buffered h @ drop (raw_pos h) content,
                   \<lparr>buffered = [],
                    raw_pos = raw_pos h + length (drop (raw_pos h) content)\<rparr>))
      else if nat n \<le> length (buffered h) then
        Inr (take (nat n) (buffered h), h\<lparr>buffered := drop (nat n) (buffered h)\<rparr>)
      else if SSIZE_MAX - BYTES_HEADER < n then Inl OverflowError
      else if M < nat n then Inl MemoryError
      else
        let remaining = nat n - length (buffered h);
            direct = B * (remaining div B);
            d = take direct (drop (raw_pos h) content);
            pos1 = raw_pos h + length d
        in if length d < direct \<or> remaining = direct
           then Inr (buffered h @ d, \<lparr>buffered = [], raw_pos = pos1\<rparr>)
           else
             let b = take B (drop pos1 content)
             in Inr (buffered h @ d @ take (remaining - direct) b,
                     \<lparr>buffered = drop (remaining - direct) b, raw_pos = pos1 + length b\<rparr>))"

definition part_suffix :: "nat \<Rightarrow> string" where
  "part_suffix part_no = ''.part'' @ zfill 3 part_no"

text \<open>The part number, if any, whose part path is the source itself.\<close>

definition alias_no :: "path \<Rightarrow> nat" where
  "alias_no src = dec_val (drop (length (path_stem (last src)) + 5) (last src))"

definition unread :: "bytes \<Rightarrow> reader \<Rightarrow> nat" where
  "unread content h = length (buffered h) + (length content - raw_pos h)"

text \<open>The \<^verbatim>\<open>while True\<close> loop of \<^verbatim>\<open>split_file\<close>: every read looks at the file as it is
  then, so a part written over the source is seen by the reads that follow.\<close>

function split_loop ::
  "nat \<Rightarrow> nat \<Rightarrow> path \<Rightarrow> int \<Rightarrow> reader \<Rightarrow> fs \<Rightarrow> nat \<Rightarrow> path list
   \<Rightarrow> (error + path list) \<times> fs" where
  "split_loop B M src chunk_size h f part_no ps =
     (case buffered_read B M chunk_size (file_content f src) h of
        Inl e \<Rightarrow> (Inl e, f)
      | Inr (data, h') \<Rightarrow>
          if data = [] then (Inr ps, f)
          else (case with_suffix src (part_suffix part_no) of
                  Inl e \<Rightarrow> (Inl e, f)
                | Inr part_path \<Rightarrow>
                    split_loop B M src chunk_size h' (write_bytes f part_path data)
                      (part_no + 1) (ps @ [part_path])))"
  by pat_completeness auto
termination
proof (relation "measures
    [\<lambda>(B, M, src, c, h, f, part_no, ps). Suc (alias_no src) - part_no,
     \<lambda>(B, M, src, c, h, f, part_no, ps). unread (file_content f src) h]")
  show "wf (measures
    [\<lambda>(B, M, src, c, h, f, part_no, ps). Suc (alias_no src) - part_no,
     \<lambda>(B, M, src, c, h, f, part_no, ps). unread (file_content f src) h])"
    by simp
next
  fix B M :: nat and src :: path and chunk_size :: int and h :: reader and f :: fs
    and part_no :: nat and ps :: "path list" and x2 data h' part_path
  assume rd: "buffered_read B M chunk_size (file_content f src) h = Inr x2"
    and x2: "(data, h') = x2" and data: "data \<noteq> []"
    and ws: "with_suffix src (part_suffix part_no) = Inr part_path"
  have digit: "digit_val (digit_char d) = d" if "d < 10" for d
  proof -
    from that have "d \<in> {0, 1, 2, 3, 4, 5, 6, 7, 8, 9}" by auto
    then show ?thesis by (auto simp: digit_val_def digit_char_def)
  qed
  have dec: "dec_val (dec n) = n" for n
  proof (induction n rule: dec.induct)
    case (1 n)
    show ?case
    proof (cases "n < 10")
      case True
      then show ?thesis
        using digit [of n] by (simp add: dec.simps [of n] dec_val_def)
    next
      case False
      then have "dec_val (dec n) = 10 * dec_val (dec (n div 10)) + digit_val (digit_char (n mod 10))"
        by (simp add: dec.simps [of n] dec_val_def)
      also have "\<dots> = 10 * (n div 10) + n mod 10"
        using "1" False by (simp add: digit)
      finally show ?thesis by simp
    qed
  qed
  have zeros: "foldl (\<lambda>a c. 10 * a + digit_val c) 0 (replicate k (CHR ''0'')) = 0" for k
    by (induction k) (simp_all add: digit_val_def)
  have zf: "dec_val (zfill w n) = n" for w n
    using dec [of n] by (simp add: zfill_def dec_val_def zeros)
  have at_alias: "part_no = alias_no src" if "part_path = src"
  proof -
    define st where "st = path_stem (last src)"
    have "src \<noteq> []" and "butlast src @ [st @ part_suffix part_no] = src"
      using ws that by (auto simp: with_suffix_def st_def split: if_splits)
    then have "last (butlast src @ [st @ part_suffix part_no]) = last src"
      by simp
    then have "last src = st @ ''.part'' @ zfill 3 part_no"
      by (simp add: part_suffix_def)
    then have "drop (length st + 5) (last src) = zfill 3 part_no"
      by simp
    then show ?thesis
      unfolding alias_no_def st_def [symmetric] by (simp add: zf)
  qed
  have rd': "buffered_read B M chunk_size (file_content f src) h = Inr (data, h')"
    using rd x2 by simp
  have less: "unread (file_content f src) h' < unread (file_content f src) h"
  proof -
    define content where "content = file_content f src"
    define n where "n = chunk_size"
    have a1: "L - (p + ld) < bl + (L - p)" if "ld \<le> L - p" and "0 < bl + ld"
      for L p ld bl :: nat
      using that by arith
    have a2: "(lb - r) + (L - (p + ld + lb)) < bl + (L - p)"
      if "ld \<le> L - p" and "lb \<le> L - (p + ld)" and "0 < bl + ld + min r lb"
      for L p ld bl lb r :: nat
      using that by arith
    have rdc: "buffered_read B M n content h = Inr (data, h')"
      using rd' by (simp add: content_def n_def)
    have nn: "\<not> n < - 1" "\<not> SSIZE_MAX < n"
      using rdc by (auto simp: buffered_read_def split: if_splits)
    have "unread content h' < unread content h"
    proof (cases "n = - 1")
      case True
      then show ?thesis
        using rdc data by (auto simp: buffered_read_def unread_def split: if_splits)
    next
      case False
      show ?thesis
      proof (cases "nat n \<le> length (buffered h)")
        case True
        then show ?thesis
          using rdc data nn False by (auto simp: buffered_read_def unread_def split: if_splits)
      next
        case big: False
        define remaining where "remaining = nat n - length (buffered h)"
        define direct where "direct = B * (remaining div B)"
        define d where "d = take direct (drop (raw_pos h) content)"
        define b where "b = take B (drop (raw_pos h + length d) content)"
        have ok: "\<not> SSIZE_MAX - BYTES_HEADER < n" "\<not> M < nat n"
          using rdc nn False big by (auto simp: buffered_read_def split: if_splits)
        have eq: "buffered_read B M n content h =
            (if length d < direct \<or> remaining = direct
             then Inr (buffered h @ d, \<lparr>buffered = [], raw_pos = raw_pos h + length d\<rparr>)
             else Inr (buffered h @ d @ take (remaining - direct) b,
                       \<lparr>buffered = drop (remaining - direct) b,
                        raw_pos = raw_pos h + length d + length b\<rparr>))"
          using nn False big ok
          unfolding buffered_read_def Let_def remaining_def direct_def d_def b_def by simp
        have le: "length d \<le> length content - raw_pos h"
          unfolding d_def by simp
        have leb: "length b \<le> length content - (raw_pos h + length d)"
          unfolding b_def by simp
        show ?thesis
        proof (cases "length d < direct \<or> remaining = direct")
          case True
          then have dh: "data = buffered h @ d"
            "h' = \<lparr>buffered = [], raw_pos = raw_pos h + length d\<rparr>"
            using rdc unfolding eq by simp_all
          have pos: "0 < length (buffered h) + length d" using data dh(1) by auto
          show ?thesis
            unfolding unread_def dh(2) using a1 [OF le pos] by simp
        next
          case False
          then have dh: "data = buffered h @ d @ take (remaining - direct) b"
            "h' = \<lparr>buffered = drop (remaining - direct) b,
                   raw_pos = raw_pos h + length d + length b\<rparr>"
            using rdc unfolding eq by simp_all
          have pos: "0 < length (buffered h) + length d + min (remaining - direct) (length b)"
            using data dh(1) by auto
          show ?thesis
            unfolding unread_def dh(2) using a2 [OF le leb pos] by simp
        qed
      qed
    qed
    then show ?thesis by (simp add: content_def)
  qed
  show "((B, M, src, chunk_size, h', write_bytes f part_path data, part_no + 1, ps @ [part_path]),
         (B, M, src, chunk_size, h, f, part_no, ps))
        \<in> measures
            [\<lambda>(B, M, src, c, h, f, part_no, ps). Suc (alias_no src) - part_no,
             \<lambda>(B, M, src, c, h, f, part_no, ps). unread (file_content f src) h]"
  proof (cases "part_path = src")
    case True
    then have "part_no = alias_no src" by (rule at_alias)
    then show ?thesis by simp
  next
    case False
    then have "file_content (write_bytes f part_path data) src = file_content f src"
      by (simp add: file_content_def read_bytes_def write_bytes_def update_conv')
    moreover have "alias_no src - part_no < Suc (alias_no src) - part_no
        \<or> alias_no src - part_no = Suc (alias_no src) - part_no"
      by arith
    ultimately show ?thesis using less by simp
  qed
qed

declare split_loop.simps [simp del]

definition split_file ::
  "nat \<Rightarrow> nat \<Rightarrow> fs \<Rightarrow> path \<Rightarrow> int \<Rightarrow> (error + path list) \<times> fs" where
  "split_file B M f src chunk_size =
     (case read_bytes f src of
        None \<Rightarrow> (Inl OSError, f)
      | Some content \<Rightarrow>
          split_loop B M src chunk_size \<lparr>buffered = [], raw_pos = 0\<rparr> f 1 [])"

text \<open>What the chunker is expected to produce: the successive blocks of \<open>n\<close> bytes, the
  names of the parts, and the bytes read back from a list of files.\<close>

function chunks :: "nat \<Rightarrow> bytes \<Rightarrow> bytes list" where
  "chunks n xs = (if n = 0 \<or> xs = [] then [] else take n xs # chunks n (drop n xs))"
  by pat_completeness auto
termination
  by (relation "measure (\<lambda>(n, xs). length xs)") auto

declare chunks.simps [simp del]

definition part_path :: "path \<Rightarrow> nat \<Rightarrow> path" where
  "part_path src part_no = butlast src @ [path_stem (last src) @ part_suffix part_no]"

fun cat_files :: "fs \<Rightarrow> path list \<Rightarrow> bytes option" where
  "cat_files f [] = Some []"
| "cat_files f (p # ps) =
     (case read_bytes f p of
        None \<Rightarrow> None
      | Some d \<Rightarrow> map_option (\<lambda>r. d @ r) (cat_files f ps))"

subsection \<open>Collaborators and state\<close>

record datetime =
  year :: nat
  month :: nat
  day :: nat
  hour :: nat
  minute :: nat
  second :: nat

text \<open>\<^verbatim>\<open>strftime("%Y%m%d_%H%M%S")\<close>.\<close>

definition strftime :: "datetime \<Rightarrow> string" where
  "strftime t = zfill 4 (year t) @ zfill 2 (month t) @ zfill 2 (day t) @ ''_''
                @ zfill 2 (hour t) @ zfill 2 (minute t) @ zfill 2 (second t)"

text \<open>The answer to \<^verbatim>\<open>select("transcript").eq("task_id", t).single().execute()\<close> as the source
  reads it: a response whose \<^verbatim>\<open>data\<close> holds a transcript, a response whose \<^verbatim>\<open>data\<close> is empty,
  or an exception.\<close>

datatype select_result = Data string | NoData | SelectRaises

text \<open>The caption keeps the values the source formats into it (sizes in bytes; the source
  prints them in megabytes).\<close>

datatype caption =
  Summary string nat nat nat nat
  | PartCaption nat nat string nat

record send_call =
  sc_filename :: string
  sc_document :: bytes
  sc_caption :: caption
  sc_reply_to :: "int option"

record batch_row =
  batch_name :: string
  file_count :: nat
  size_bytes :: nat
  parts :: nat
  uploaded_at :: datetime
  status :: string

record recording_row =
  r_task_id :: string
  r_filename :: string
  r_transcript :: string
  r_created_at :: datetime

text \<open>The environment: the clock at the start and at the end of a run, the store's answers,
  the archive \<^verbatim>\<open>zipfile\<close> writes for a list of (name, content) entries, the channel, which
  answers a call (given the calls made before it) with a message identifier or raises, the
  buffer size \<^verbatim>\<open>open\<close> gives a binary reader, and the largest \<^verbatim>\<open>bytes\<close> object the process
  can allocate.\<close>

record env =
  buffer_size :: nat
  max_alloc :: nat
  utcnow :: datetime
  utcnow_end :: datetime
  select_transcript :: "string \<Rightarrow> select_result"
  insert_batch :: "batch_row \<Rightarrow> bool"
  insert_recording :: "recording_row \<Rightarrow> bool"
  update_task :: "string \<Rightarrow> bool"
  zip_stored :: "(string \<times> bytes) list \<Rightarrow> bytes"
  send_document :: "(send_call \<times> int option) list \<Rightarrow> send_call \<Rightarrow> int option"

record state =
  files :: fs
  batches :: "batch_row list"
  recordings :: "recording_row list"
  recorded :: "string list"
  sent :: "(send_call \<times> int option) list"
  tasks_created :: nat

subsection \<open>Batch upload\<close>

text \<open>Step 1: one manifest row per recording; an empty response gives the empty transcript.\<close>

fun build_rows :: "env \<Rightarrow> path list \<Rightarrow> error + (string \<times> string) list" where
  "build_rows e [] = Inr []"
| "build_rows e (wav # wavs) =
     (case select_transcript e (path_stem (last wav)) of
        SelectRaises \<Rightarrow> Inl StoreError
      | resp \<Rightarrow>
          (case build_rows e wavs of
             Inl err \<Rightarrow> Inl err
           | Inr rows \<Rightarrow>
               Inr ((last wav, (case resp of Data t \<Rightarrow> t | _ \<Rightarrow> [])) # rows)))"

text \<open>\<^verbatim>\<open>csv.DictWriter\<close> with the default dialect: a field holding a comma, a quote or a line
  break is quoted with its quotes doubled; rows end in CR LF. The file starts with the UTF-8
  byte-order mark.\<close>

definition needs_quote :: "string \<Rightarrow> bool" where
  "needs_quote field = (\<exists>c \<in> set field. c \<in> {CHR '','', CHR 0x22, CHR 0x0D, CHR 0x0A})"

definition csv_field :: "string \<Rightarrow> string" where
  "csv_field field =
     (if needs_quote field
      then [CHR 0x22] @ concat (map (\<lambda>c. if c = CHR 0x22 then [c, c] else [c]) field) @ [CHR 0x22]
      else field)"

definition csv_row :: "string \<Rightarrow> string \<Rightarrow> string" where
  "csv_row a b = csv_field a @ '','' @ csv_field b @ [CHR 0x0D, CHR 0x0A]"

definition csv_bytes :: "(string \<times> string) list \<Rightarrow> bytes" where
  "csv_bytes rows =
     [CHR 0xEF, CHR 0xBB, CHR 0xBF] @ csv_row ''filename'' ''raw_transcript''
     @ concat (map (\<lambda>(fn, tr). csv_row fn tr) rows)"

text \<open>Step 2: the entries \<^verbatim>\<open>zf.write(item, item.name)\<close> adds, in the order given.\<close>

definition zip_entries :: "fs \<Rightarrow> path list \<Rightarrow> (string \<times> bytes) list" where
  "zip_entries f items =
     List.map_filter (\<lambda>p. map_option (\<lambda>d. (last p, d)) (read_bytes f p)) items"

text \<open>Step 4: the \<^verbatim>\<open>for i, part in enumerate(parts, 1)\<close> loop inside \<^verbatim>\<open>try\<close>. The result is
  \<open>Some i\<close> when an exception was raised while part \<open>i\<close> was handled, \<open>None\<close> when the loop ran
  to its end. \<open>first\<close> is \<^verbatim>\<open>first_message_id\<close>.\<close>

fun upload_loop ::
  "env \<Rightarrow> string \<Rightarrow> nat \<Rightarrow> nat \<Rightarrow> nat \<Rightarrow> nat \<Rightarrow> path list \<Rightarrow> int option \<Rightarrow> state
   \<Rightarrow> nat option \<times> state" where
  "upload_loop e timestamp n_rows zip_size total_parts i [] first s = (None, s)"
| "upload_loop e timestamp n_rows zip_size total_parts i (part # rest) first s =
     (case st_size (files s) part of
        None \<Rightarrow> (Some i, s)
      | Some part_size \<Rightarrow>
          let caption = (if i = 1 then Summary timestamp n_rows zip_size i total_parts
                         else PartCaption i total_parts (last part) part_size)
          in (case read_bytes (files s) part of
                None \<Rightarrow> (Some i, s)
              | Some document \<Rightarrow>
                  let call = \<lparr>sc_filename = last part, sc_document = document,
                              sc_caption = caption,
                              sc_reply_to = (if i > 1 then first else None)\<rparr>;
                      answer = send_document e (sent s) call;
                      s1 = s\<lparr>sent := sent s @ [(call, answer)]\<rparr>
                  in (case answer of
                        None \<Rightarrow> (Some i, s1)
                      | Some message_id \<Rightarrow>
                          (case unlink (files s1) part of
                             None \<Rightarrow> (Some i, s1)
                           | Some f' \<Rightarrow>
                               upload_loop e timestamp n_rows zip_size total_parts (i + 1) rest
                                 (if i = 1 then Some message_id else first)
                                 (s1\<lparr>files := f'\<rparr>)))))"

text \<open>The \<^verbatim>\<open>except\<close> branch: every part and the archive are unlinked, missing or not.\<close>

definition cleanup_parts :: "fs \<Rightarrow> path list \<Rightarrow> path \<Rightarrow> fs" where
  "cleanup_parts f ps zip_path =
     unlink_missing_ok (fold (\<lambda>p g. unlink_missing_ok g p) ps f) zip_path"

datatype outcome = Committed | Aborted nat | Raised error

definition zip_path_of :: "env \<Rightarrow> path" where
  "zip_path_of e = path_parts (''/tmp/batch_'' @ strftime (utcnow e) @ ''.zip'')"

definition meta_path :: path where
  "meta_path = joinpath TEMP_DIR ''metadata.csv''"

text \<open>Steps 1 and 2 on the file system: the manifest is written into the scratch directory,
  then every entry of the scratch directory, the manifest included, goes into the archive.\<close>

definition write_archive :: "env \<Rightarrow> fs \<Rightarrow> (string \<times> string) list \<Rightarrow> fs" where
  "write_archive e f rows =
     (let f1 = write_bytes f meta_path (csv_bytes rows)
      in write_bytes f1 (zip_path_of e) (zip_stored e (zip_entries f1 (iterdir f1 TEMP_DIR))))"

definition upload_batch :: "env \<Rightarrow> state \<Rightarrow> outcome \<times> state" where
  "upload_batch e s =
     (let timestamp = strftime (utcnow e);
          zip_path = zip_path_of e
      in case build_rows e (glob_wav (files s) TEMP_DIR) of
           Inl err \<Rightarrow> (Raised err, s)
         | Inr rows \<Rightarrow>
             let f2 = write_archive e (files s) rows
             in (case st_size f2 zip_path of
                   None \<Rightarrow> (Raised OSError, s\<lparr>files := f2\<rparr>)
                 | Some zip_size \<Rightarrow>
                     (case split_file (buffer_size e) (max_alloc e) f2 zip_path CHUNK_SIZE_BYTES of
                        (Inl err, f3) \<Rightarrow> (Raised err, s\<lparr>files := f3\<rparr>)
                      | (Inr ps, f3) \<Rightarrow>
                          let total_parts = length ps
                          in (case upload_loop e timestamp (length rows) zip_size total_parts
                                     1 ps None (s\<lparr>files := f3\<rparr>) of
                                (Some i, s4) \<Rightarrow>
                                  (Aborted i,
                                   s4\<lparr>files := cleanup_parts (files s4) ps zip_path\<rparr>)
                              | (None, s4) \<Rightarrow>
                                  let row = \<lparr>batch_name = last zip_path,
                                             file_count = length rows,
                                             size_bytes = zip_size,
                                             parts = total_parts,
                                             uploaded_at = utcnow_end e,
                                             status = ''uploaded''\<rparr>
                                  in if \<not> insert_batch e row then (Raised StoreError, s4)
                                     else (Committed,
                                           s4\<lparr>batches := batches s4 @ [row],
                                              files := rmtree_mkdir
                                                (unlink_missing_ok (files s4) zip_path)
                                                TEMP_DIR\<rparr>)))))"

subsection \<open>The submit endpoint\<close>

record submission =
  task_id :: string
  transcript :: string
  content_type :: string
  audio :: bytes

datatype response = Ok string nat | HTTP400 | Failed error

definition ALLOWED :: "string list" where
  "ALLOWED = [''audio/wav'', ''audio/wave'', ''audio/x-wav'', ''application/octet-stream'']"

definition dest_of :: "string \<Rightarrow> path" where
  "dest_of tid = joinpath TEMP_DIR (tid @ ''.wav'')"

text \<open>The directories of the model, and the file a path names once the system has followed
  it from the root: \<^verbatim>\<open>..\<close> steps to the parent, any other component but the last must be a
  directory. \<open>None\<close> stands for the \<^verbatim>\<open>OSError\<close> of a missing directory.\<close>

definition is_dir :: "path \<Rightarrow> bool" where
  "is_dir p = (p = [] \<or> p = [''tmp''] \<or> p = TEMP_DIR)"

fun resolve :: "path \<Rightarrow> path \<Rightarrow> path option" where
  "resolve cur [] = Some cur"
| "resolve cur (c # cs) =
     (if c = ''..'' then resolve (butlast cur) cs
      else if cs = [] then Some (cur @ [c])
      else if is_dir (cur @ [c]) then resolve (cur @ [c]) cs
      else None)"

text \<open>\<^verbatim>\<open>open(dest, "wb")\<close> followed by the write: \<^verbatim>\<open>ValueError\<close> on a NUL character in the
  path, \<^verbatim>\<open>OSError\<close> when a directory on the way is missing or the path names a directory;
  otherwise the file is created or truncated and written.\<close>

definition open_wb :: "fs \<Rightarrow> path \<Rightarrow> bytes \<Rightarrow> error + fs" where
  "open_wb f dest d =
     (if CHR 0x00 \<in> set (concat dest) then Inl ValueError
      else (case resolve [] dest of
              None \<Rightarrow> Inl OSError
            | Some p \<Rightarrow> if is_dir p then Inl OSError else Inr (write_bytes f p d)))"

text \<open>One run of \<^verbatim>\<open>submit\<close>. Between the write of the recording and the return nothing is
  awaited but the free lock, so the run is one step. \<^verbatim>\<open>asyncio.create_task(upload_batch())\<close>
  only schedules the task, which is counted in \<open>tasks_created\<close>; the lock is released when
  the \<^verbatim>\<open>async with\<close> block is left, before the task has run.\<close>

definition submit :: "env \<Rightarrow> state \<Rightarrow> submission \<Rightarrow> response \<times> state" where
  "submit e s sub =
     (if content_type sub \<notin> set ALLOWED then (HTTP400, s)
      else
        let dest = dest_of (task_id sub)
        in (case open_wb (files s) dest (audio sub) of
              Inl err \<Rightarrow> (Failed err, s)
            | Inr f1 \<Rightarrow>
                let s1 = s\<lparr>files := f1\<rparr>;
                    row = \<lparr>r_task_id = task_id sub, r_filename = last dest,
                           r_transcript = transcript sub, r_created_at = utcnow e\<rparr>
                in if \<not> insert_recording e row then (Failed StoreError, s1)
                   else
                     let s2 = s1\<lparr>recordings := recordings s1 @ [row]\<rparr>
                     in if \<not> update_task e (task_id sub) then (Failed StoreError, s2)
                        else
                          let s3 = s2\<lparr>recorded := recorded s2 @ [task_id sub]\<rparr>;
                              batch_bytes = get_batch_size (files s3);
                              s4 = (if batch_bytes \<ge> BATCH_SIZE_BYTES
                                    then (if get_batch_size (files s3) \<ge> BATCH_SIZE_BYTES
                                          then s3\<lparr>tasks_created := tasks_created s3 + 1\<rparr>
                                          else s3)
                                    else s3)
                          in (Ok (task_id sub) batch_bytes, s4)))"

subsection \<open>An example deployment\<close>

text \<open>A scratch directory with three recordings, stored out of order, a store that knows the
  transcript of one of them, an archive writer that returns the given bytes, and a channel
  that either accepts every document or refuses the second one.\<close>

definition ex_clock :: datetime where
  "ex_clock = \<lparr>year = 2024, month = 1, day = 2, hour = 3, minute = 4, second = 5\<rparr>"

definition ex_env ::
  "bytes \<Rightarrow> ((send_call \<times> int option) list \<Rightarrow> send_call \<Rightarrow> int option) \<Rightarrow> env" where
  "ex_env archive channel =
     \<lparr>buffer_size = 4096, max_alloc = 2 ^ 32,
      utcnow = ex_clock, utcnow_end = ex_clock,
      select_transcript = (\<lambda>t. if t = ''a'' then Data ''alif'' else NoData),
      insert_batch = (\<lambda>_. True), insert_recording = (\<lambda>_. True), update_task = (\<lambda>_. True),
      zip_stored = (\<lambda>_. archive), send_document = channel\<rparr>"

definition accepting :: "(send_call \<times> int option) list \<Rightarrow> send_call \<Rightarrow> int option" where
  "accepting history call = Some (100 + int (length history))"

definition refusing_second :: "(send_call \<times> int option) list \<Rightarrow> send_call \<Rightarrow> int option" where
  "refusing_second history call =
     (if length history = 1 then None else Some (100 + int (length history)))"

definition ex_state :: state where
  "ex_state =
     \<lparr>files = [([''tmp'', ''quran_batch'', ''b.wav''], ''bb''),
               ([''tmp'', ''quran_batch'', ''a.wav''], ''a''),
               ([''tmp'', ''quran_batch'', ''c.wav''], ''ccc'')],
      batches = [], recordings = [], recorded = [], sent = [], tasks_created = 0\<rparr>"

definition big_archive :: bytes where
  "big_archive = replicate 100000000 (CHR 0x00)"

section \<open>Properties\<close>

subsection \<open>Arithmetic and names\<close>

lemma ceil_div_int:
  assumes "0 < (c::int)"
  shows "(a + c - 1) div c = - ((- a) div c)"
proof -
  let ?q = "a div c" and ?r = "a mod c"
  have r: "0 \<le> ?r" "?r < c" using assms by simp_all
  have cz: "c \<noteq> 0" using assms by simp
  have "a + c - 1 = (?r + c - 1) + ?q * c" by simp
  also have "\<dots> div c = ?q + (?r + c - 1) div c"
    by (rule div_mult_self1 [OF cz])
  finally have d1: "(a + c - 1) div c = ?q + (?r + c - 1) div c" .
  have d2: "(?r + c - 1) div c = (if ?r = 0 then 0 else 1)"
  proof (cases "?r = 0")
    case True
    then show ?thesis using assms by (simp add: div_pos_pos_trivial)
  next
    case False
    then have "0 \<le> ?r - 1" "?r - 1 < c" using r by simp_all
    then have z: "(?r - 1) div c = 0" by (simp add: div_pos_pos_trivial)
    have "?r + c - 1 = (?r - 1) + 1 * c" by simp
    also have "\<dots> div c = 1 + (?r - 1) div c"
      by (rule div_mult_self1 [OF cz])
    finally show ?thesis using False z by simp
  qed
  have d3: "(- a) div c = (if ?r = 0 then - ?q else - ?q - 1)"
    using assms by (simp add: zdiv_zminus1_eq_if)
  show ?thesis unfolding d1 d2 d3 by simp
qed

lemma ceil_div_nat:
  assumes "0 < (n::nat)"
  shows "int ((m + n - 1) div n) = \<lceil>real m / real n\<rceil>"
proof -
  have "int ((m + n - 1) div n) = (int m + int n - 1) div int n"
    using assms by (simp add: zdiv_int of_nat_diff)
  also have "\<dots> = - ((- int m) div int n)"
    using assms by (simp add: ceil_div_int)
  also have "\<dots> = \<lceil>real_of_int (int m) / real_of_int (int n)\<rceil>"
    by (rule ceiling_divide_eq_div [symmetric])
  finally show ?thesis by simp
qed


lemma digit_val_digit_char: "d < 10 \<Longrightarrow> digit_val (digit_char d) = d"
proof -
  assume "d < 10"
  then have "d \<in> {0,1,2,3,4,5,6,7,8,9}" by auto
  then show ?thesis
    by (auto simp: digit_val_def digit_char_def)
qed

lemma dec_val_snoc: "dec_val (s @ [c]) = 10 * dec_val s + digit_val c"
  by (simp add: dec_val_def)

lemma dec_val_dec: "dec_val (dec n) = n"
proof (induction n rule: dec.induct)
  case (1 n)
  show ?case
  proof (cases "n < 10")
    case True
    then show ?thesis
      using digit_val_digit_char [of n] by (simp add: dec.simps [of n] dec_val_def)
  next
    case False
    then have "dec_val (dec n) = 10 * dec_val (dec (n div 10)) + digit_val (digit_char (n mod 10))"
      by (simp add: dec.simps [of n] dec_val_snoc)
    also have "\<dots> = 10 * (n div 10) + n mod 10"
      using "1" False by (simp add: digit_val_digit_char)
    finally show ?thesis by simp
  qed
qed

lemma dec_val_zeros: "foldl (\<lambda>a c. 10 * a + digit_val c) 0 (replicate k (CHR ''0'')) = 0"
  by (induction k) (simp_all add: digit_val_def)

lemma dec_val_zfill: "dec_val (zfill w n) = n"
  using dec_val_dec [of n] by (simp add: zfill_def dec_val_def dec_val_zeros)

lemma zfill_inj: "zfill w m = zfill w n \<Longrightarrow> m = n"
  by (metis dec_val_zfill)

lemma part_suffix_inj: "part_suffix m = part_suffix n \<Longrightarrow> m = n"
  by (auto simp: part_suffix_def dest: zfill_inj)

lemma part_path_inj: "part_path src m = part_path src n \<Longrightarrow> m = n"
  by (auto simp: part_path_def dest: part_suffix_inj)

lemma distinct_part_paths: "distinct (map (part_path src) [m..<n])"
  by (auto simp: distinct_map inj_on_def dest: part_path_inj)

lemma with_suffix_part_path: "src \<noteq> [] \<Longrightarrow> with_suffix src (part_suffix n) = Inr (part_path src n)"
  by (simp add: with_suffix_def part_path_def)

lemma chunks_Nil: "chunks n [] = []"
  by (simp add: chunks.simps [of n "[]"])

lemma chunks_step: "0 < n \<Longrightarrow> xs \<noteq> [] \<Longrightarrow> chunks n xs = take n xs # chunks n (drop n xs)"
  by (simp add: chunks.simps [of n xs])

lemma concat_chunks: "0 < n \<Longrightarrow> concat (chunks n xs) = xs"
proof (induction n xs rule: chunks.induct)
  case (1 n xs)
  then show ?case
    by (cases "xs = []") (simp_all add: chunks_Nil chunks_step)
qed

lemma ceil_div_step:
  assumes "0 < (n::nat)" and "0 < m"
  shows "(m + n - 1) div n = Suc ((m - n + n - 1) div n)"
proof -
  have nz: "n \<noteq> 0" using assms by simp
  have "m + n - 1 = (m - 1) + 1 * n" using assms by simp
  also have "\<dots> div n = 1 + (m - 1) div n"
    by (rule div_mult_self1 [OF nz])
  finally have a: "(m + n - 1) div n = Suc ((m - 1) div n)" by simp
  show ?thesis
  proof (cases "n \<le> m")
    case True
    then show ?thesis using a by simp
  next
    case False
    then have "m - n + n - 1 < n" "m - 1 < n" using assms by simp_all
    then show ?thesis using a by simp
  qed
qed

lemma length_chunks: "0 < n \<Longrightarrow> length (chunks n xs) = (length xs + n - 1) div n"
proof (induction n xs rule: chunks.induct)
  case (1 n xs)
  show ?case
  proof (cases "xs = []")
    case True
    then show ?thesis using "1.prems" by (simp add: chunks_Nil)
  next
    case False
    then have "length (chunks n xs) = Suc ((length xs - n + n - 1) div n)"
      using "1" by (simp add: chunks_step)
    then show ?thesis
      using ceil_div_step [of n "length xs"] "1.prems" False by simp
  qed
qed

subsection \<open>Reading through the buffer\<close>

lemma take_take_le: "r \<le> B \<Longrightarrow> take r (take B x) = take r x"
  by (simp add: min_def)

lemma drop_take_rest:
  assumes "r \<le> B"
  shows "drop r (take B x) @ drop (length (take B x)) x = drop r x"
proof (cases "length x \<le> B")
  case True
  then show ?thesis by simp
next
  case False
  then have "length (take B x) = B" by simp
  moreover have "drop r x = drop r (take B x @ drop B x)" by simp
  moreover have "\<dots> = drop r (take B x) @ drop B x"
    using assms False by (simp del: append_take_drop_id)
  ultimately show ?thesis by simp
qed

text \<open>While the file does not change, a read of \<open>n\<close> bytes hands out the next \<open>n\<close> bytes
  of what is still unread, whatever the buffer holds.\<close>

lemma buffered_read_static:
  assumes "0 < B" and "0 \<le> n" and "n \<le> SSIZE_MAX - BYTES_HEADER" and "nat n \<le> M"
  shows "\<exists>h'. buffered_read B M n content h =
               Inr (take (nat n) (buffered h @ drop (raw_pos h) content), h')
             \<and> buffered h' @ drop (raw_pos h') content =
               drop (nat n) (buffered h @ drop (raw_pos h) content)"
proof -
  define k where "k = nat n"
  define rest where "rest = drop (raw_pos h) content"
  have n: "\<not> n < - 1" "\<not> SSIZE_MAX < n" "n \<noteq> - 1" "\<not> SSIZE_MAX - BYTES_HEADER < n" "\<not> M < nat n"
    using assms by (simp_all add: BYTES_HEADER_def)
  show ?thesis
  proof (cases "k \<le> length (buffered h)")
    case True
    then have "buffered_read B M n content h =
        Inr (take k (buffered h), h\<lparr>buffered := drop k (buffered h)\<rparr>)"
      using n by (simp add: buffered_read_def k_def)
    then show ?thesis
      using True by (simp add: k_def [symmetric])
  next
    case big: False
    define remaining where "remaining = k - length (buffered h)"
    define direct where "direct = B * (remaining div B)"
    define d where "d = take direct rest"
    define b where "b = take B (drop (raw_pos h + length d) content)"
    have dle: "direct \<le> remaining"
      unfolding direct_def by (metis mult.commute div_times_less_eq_dividend)
    have rlt: "remaining - direct < B"
      unfolding direct_def using assms(1)
      by (metis minus_mult_div_eq_mod mod_less_divisor)
    have k: "k = length (buffered h) + remaining"
      using big by (simp add: remaining_def)
    have tk: "take k (buffered h @ rest) = buffered h @ take remaining rest"
      by (simp add: k)
    have dk: "drop k (buffered h @ rest) = drop remaining rest"
      by (simp add: k)
    show ?thesis
    proof (cases "length d < direct \<or> remaining = direct")
      case True
      have eq: "buffered_read B M n content h =
          Inr (buffered h @ d, \<lparr>buffered = [], raw_pos = raw_pos h + length d\<rparr>)"
        using n big True
        unfolding buffered_read_def Let_def k_def remaining_def direct_def d_def rest_def
        by simp
      have "take remaining rest = d \<and> drop (length d) rest = drop remaining rest"
      proof (cases "length d < direct")
        case True
        then have "length rest < direct" unfolding d_def by simp
        then show ?thesis using dle unfolding d_def by simp
      next
        case False
        then have "remaining = direct" "length d = direct"
          using True unfolding d_def by auto
        then show ?thesis unfolding d_def by simp
      qed
      then show ?thesis
        unfolding eq k_def [symmetric] rest_def [symmetric] tk dk
        by (simp add: rest_def add.commute)
    next
      case False
      then have full: "length d = direct" "direct < remaining"
        using dle unfolding d_def by auto
      have eq: "buffered_read B M n content h =
          Inr (buffered h @ d @ take (remaining - direct) b,
               \<lparr>buffered = drop (remaining - direct) b,
                raw_pos = raw_pos h + length d + length b\<rparr>)"
        using n big False
        unfolding buffered_read_def Let_def k_def remaining_def direct_def d_def b_def rest_def
        by simp
      have b_alt: "b = take B (drop direct rest)"
        unfolding b_def full(1) rest_def by (simp add: add.commute)
      have t1: "d @ take (remaining - direct) b = take remaining rest"
      proof -
        have "take (remaining - direct) b = take (remaining - direct) (drop direct rest)"
          unfolding b_alt using rlt by (simp add: take_take_le)
        moreover have "take remaining rest = take (direct + (remaining - direct)) rest"
          using dle by simp
        ultimately show ?thesis
          unfolding d_def by (simp only: take_add)
      qed
      have t2: "drop (remaining - direct) b @ drop (raw_pos h + length d + length b) content
                = drop remaining rest"
      proof -
        have "drop (raw_pos h + length d + length b) content = drop (length b) (drop direct rest)"
          unfolding rest_def full(1) by (simp add: add.commute add.left_commute)
        then have "drop (remaining - direct) b @ drop (raw_pos h + length d + length b) content
                   = drop (remaining - direct) (drop direct rest)"
          unfolding b_alt using drop_take_rest [of "remaining - direct" B "drop direct rest"] rlt
          by simp
        also have "\<dots> = drop remaining rest"
          using dle by simp
        finally show ?thesis .
      qed
      show ?thesis
        unfolding eq k_def [symmetric] rest_def [symmetric] tk dk
        using t1 t2 by simp
    qed
  qed
qed

lemma file_content_write_other:
  "p \<noteq> src \<Longrightarrow> file_content (write_bytes f p d) src = file_content f src"
  by (simp add: file_content_def read_bytes_def write_bytes_def update_conv')

lemma split_loop_raise:
  assumes "buffered_read B M c (file_content f src) h = Inl err"
  shows "split_loop B M src c h f n ps = (Inl err, f)"
  using assms by (simp add: split_loop.simps [of B M src c h f n ps])

lemma split_loop_stop:
  assumes "buffered_read B M c (file_content f src) h = Inr ([], h')"
  shows "split_loop B M src c h f n ps = (Inr ps, f)"
  using assms by (simp add: split_loop.simps [of B M src c h f n ps])

lemma split_loop_step:
  assumes "buffered_read B M c (file_content f src) h = Inr (data, h')" and "data \<noteq> []"
    and "src \<noteq> []"
  shows "split_loop B M src c h f n ps =
         split_loop B M src c h' (write_bytes f (part_path src n) data) (n + 1)
           (ps @ [part_path src n])"
  using assms
  by (simp add: split_loop.simps [of B M src c h f n ps] with_suffix_part_path)

text \<open>When no part is written over the source, the loop produces the successive blocks of
  what was unread at its start.\<close>

lemma split_loop_eq:
  assumes "src \<noteq> []" and "0 < B" and "0 < c" and "c \<le> SSIZE_MAX - BYTES_HEADER"
    and "nat c \<le> M" and "\<forall>n. part_path src n \<noteq> src"
    and "u = buffered h @ drop (raw_pos h) (file_content f src)"
  shows "split_loop B M src c h f n ps =
         (Inr (ps @ map (part_path src) [n..<n + length (chunks (nat c) u)]),
          AList.updates (map (part_path src) [n..<n + length (chunks (nat c) u)])
            (chunks (nat c) u) f)"
  using assms
proof (induction "nat c" u arbitrary: h f n ps rule: chunks.induct)
  case (1 u)
  have c0: "0 \<le> c" using "1.prems"(3) by simp
  obtain h' where rd: "buffered_read B M c (file_content f src) h = Inr (take (nat c) u, h')"
    and u': "buffered h' @ drop (raw_pos h') (file_content f src) = drop (nat c) u"
    using buffered_read_static [OF "1.prems"(2) c0 "1.prems"(4,5), of "file_content f src" h]
      "1.prems"(7) by auto
  show ?case
  proof (cases "u = []")
    case True
    then have "split_loop B M src c h f n ps = (Inr ps, f)"
      using split_loop_stop [of B M c f src h h' n ps] rd by simp
    with True show ?thesis by (simp add: chunks_Nil)
  next
    case False
    have nz: "nat c \<noteq> 0" using "1.prems"(3) by simp
    have tk: "take (nat c) u \<noteq> []" using False nz by simp
    let ?f = "write_bytes f (part_path src n) (take (nat c) u)"
    have step: "split_loop B M src c h f n ps =
        split_loop B M src c h' ?f (n + 1) (ps @ [part_path src n])"
      by (rule split_loop_step [OF rd tk "1.prems"(1)])
    have fc: "file_content ?f src = file_content f src"
      using "1.prems"(6) by (simp add: file_content_write_other)
    have u2: "drop (nat c) u = buffered h' @ drop (raw_pos h') (file_content ?f src)"
      using u' fc by simp
    have ch: "chunks (nat c) u = take (nat c) u # chunks (nat c) (drop (nat c) u)"
      using False nz by (simp add: chunks_step)
    have ih: "split_loop B M src c h' ?f (n + 1) (ps @ [part_path src n]) =
         (Inr ((ps @ [part_path src n]) @ map (part_path src)
                 [n + 1..<n + 1 + length (chunks (nat c) (drop (nat c) u))]),
          AList.updates (map (part_path src)
                 [n + 1..<n + 1 + length (chunks (nat c) (drop (nat c) u))])
            (chunks (nat c) (drop (nat c) u)) ?f)"
      using "1.hyps" [OF _ "1.prems"(1-6) u2] False nz by simp
    have up: "[n..<n + length (chunks (nat c) u)] =
              n # [n + 1..<n + 1 + length (chunks (nat c) (drop (nat c) u))]"
      unfolding ch by (subst upt_rec) simp
    show ?thesis
      unfolding step ih up by (simp add: ch write_bytes_def)
  qed
qed

lemma cat_files_updates:
  "distinct ks \<Longrightarrow> length ks = length vs \<Longrightarrow> cat_files (AList.updates ks vs f) ks = Some (concat vs)"
proof (induction ks arbitrary: vs f)
  case Nil
  then show ?case by simp
next
  case (Cons k ks)
  then obtain v vs' where vs: "vs = v # vs'" by (cases vs) auto
  have rd: "read_bytes (AList.updates (k # ks) vs f) k = Some v"
    using Cons.prems by (simp add: read_bytes_def vs updates_conv' update_conv')
  have eq: "AList.updates (k # ks) vs f = AList.updates ks vs' (AList.update k v f)"
    by (simp add: vs)
  have "cat_files (AList.updates ks vs' (AList.update k v f)) ks = Some (concat vs')"
    using Cons.IH [of vs' "AList.update k v f"] Cons.prems by (simp add: vs)
  then show ?case
    using rd unfolding eq by (simp add: vs)
qed

text \<open>Whatever happens, the parts are named by consecutive numbers, and nothing but the
  parts is written.\<close>

lemma split_loop_names:
  "split_loop B M src c h f n ps = (Inr ps', f') \<Longrightarrow>
   \<exists>k. ps' = ps @ map (part_path src) [n..<n + k]
       \<and> (\<forall>q. q \<notin> part_path src ` {n..<n + k} \<longrightarrow> read_bytes f' q = read_bytes f q)"
proof (induction B M src c h f n ps rule: split_loop.induct)
  case (1 B M src c h f n ps)
  show ?case
  proof (cases "buffered_read B M c (file_content f src) h")
    case (Inl e)
    then show ?thesis using "1.prems" by (simp add: split_loop.simps [of B M src c h f n ps])
  next
    case (Inr x)
    obtain data h' where x: "x = (data, h')" by (cases x)
    show ?thesis
    proof (cases "data = []")
      case True
      then have "ps' = ps" "f' = f"
        using "1.prems" Inr x by (simp_all add: split_loop.simps [of B M src c h f n ps])
      then show ?thesis by (intro exI [of _ 0]) simp
    next
      case False
      show ?thesis
      proof (cases "with_suffix src (part_suffix n)")
        case (Inl e)
        then show ?thesis
          using "1.prems" Inr x False by (simp add: split_loop.simps [of B M src c h f n ps])
      next
        case ws: (Inr pp)
        then have pp: "pp = part_path src n"
          by (auto simp: with_suffix_def part_path_def split: if_splits)
        have rec: "split_loop B M src c h' (write_bytes f pp data) (n + 1) (ps @ [pp]) = (Inr ps', f')"
          using "1.prems" Inr x False ws by (simp add: split_loop.simps [of B M src c h f n ps])
        obtain k where k: "ps' = (ps @ [pp]) @ map (part_path src) [n + 1..<n + 1 + k]"
          "\<forall>q. q \<notin> part_path src ` {n + 1..<n + 1 + k} \<longrightarrow>
               read_bytes f' q = read_bytes (write_bytes f pp data) q"
          using "1.IH" [OF Inr x [symmetric] False ws rec] by blast
        have up: "[n..<n + Suc k] = n # [n + 1..<n + 1 + k]"
          by (subst upt_rec) simp
        have st: "{n..<n + Suc k} = insert n {n + 1..<n + 1 + k}"
          by auto
        have a: "ps' = ps @ map (part_path src) [n..<n + Suc k]"
          unfolding up using k(1) pp by simp
        have b: "\<forall>q. q \<notin> part_path src ` {n..<n + Suc k} \<longrightarrow> read_bytes f' q = read_bytes f q"
          unfolding st using k(2) pp by (auto simp: read_bytes_def write_bytes_def update_conv')
        show ?thesis using a b by blast
      qed
    qed
  qed
qed

subsection \<open>The chunker\<close>

text \<open>
  Claim C3, as stated, fails in two places. A source named like one of its own parts is
  overwritten while it is still being read: with a 4096-byte buffer, a 5000-byte file
  \<^verbatim>\<open>x.part001\<close> split with ceiling 3000 gives two parts of 3000 and 1096 bytes, which do not
  add up to the source. And a ceiling beyond \<^verbatim>\<open>sys.maxsize\<close> makes the first read raise, so
  that no parts are returned at all.
\<close>

theorem split_file_counterexample:
  "split_file 4096 (2 ^ 32) [([''tmp'', ''x.part001''], replicate 5000 (CHR 0x00))]
     [''tmp'', ''x.part001''] 3000
   = (Inr [[''tmp'', ''x.part001''], [''tmp'', ''x.part002'']],
      [([''tmp'', ''x.part001''], replicate 3000 (CHR 0x00)),
       ([''tmp'', ''x.part002''], replicate 1096 (CHR 0x00))])
   \<and> cat_files [([''tmp'', ''x.part001''], replicate 3000 (CHR 0x00)),
                 ([''tmp'', ''x.part002''], replicate 1096 (CHR 0x00))]
        [[''tmp'', ''x.part001''], [''tmp'', ''x.part002'']]
      \<noteq> Some (replicate 5000 (CHR 0x00))
   \<and> split_file 4096 (2 ^ 32) [([''tmp'', ''a.zip''], ''abc'')] [''tmp'', ''a.zip''] (2 ^ 63)
     = (Inl OverflowError, [([''tmp'', ''a.zip''], ''abc'')])"
proof -
  let ?src = "[''tmp'', ''x.part001'']"
  let ?p2 = "[''tmp'', ''x.part002'']"
  let ?z = "CHR 0x00"
  let ?f0 = "[(?src, replicate 5000 ?z)]"
  let ?f1 = "[(?src, replicate 3000 ?z)]"
  let ?f2 = "[(?src, replicate 3000 ?z), (?p2, replicate 1096 ?z)]"
  let ?h0 = "\<lparr>buffered = [], raw_pos = 0\<rparr>"
  let ?h1 = "\<lparr>buffered = replicate 1096 ?z, raw_pos = 4096\<rparr>"
  let ?h2 = "\<lparr>buffered = [], raw_pos = 4096\<rparr>"
  have stem: "path_stem ''x.part001'' = ''x''"
    by (simp add: path_stem_def path_suffix_def after_dot_def)
  have p1: "part_path ?src 1 = ?src"
    by (simp add: part_path_def stem part_suffix_def zfill_def dec.simps digit_char_def numeral_2_eq_2)
  have p2: "part_path ?src 2 = ?p2"
    by (simp add: part_path_def stem part_suffix_def zfill_def dec.simps digit_char_def numeral_2_eq_2)
  have c0: "file_content ?f0 ?src = replicate 5000 ?z"
    by (simp add: file_content_def read_bytes_def)
  have c1: "file_content ?f1 ?src = replicate 3000 ?z"
    by (simp add: file_content_def read_bytes_def)
  have c2: "file_content ?f2 ?src = replicate 3000 ?z"
    by (simp add: file_content_def read_bytes_def)
  have r1: "buffered_read 4096 (2 ^ 32) 3000 (replicate 5000 ?z) ?h0 = Inr (replicate 3000 ?z, ?h1)"
    by (simp add: buffered_read_def SSIZE_MAX_def BYTES_HEADER_def Let_def)
  have r2: "buffered_read 4096 (2 ^ 32) 3000 (replicate 3000 ?z) ?h1 = Inr (replicate 1096 ?z, ?h2)"
    by (simp add: buffered_read_def SSIZE_MAX_def BYTES_HEADER_def Let_def)
  have r3: "buffered_read 4096 (2 ^ 32) 3000 (replicate 3000 ?z) ?h2 = Inr ([], ?h2)"
    by (simp add: buffered_read_def SSIZE_MAX_def BYTES_HEADER_def Let_def)
  have w1: "write_bytes ?f0 ?src (replicate 3000 ?z) = ?f1"
    by (simp add: write_bytes_def)
  have w2: "write_bytes ?f1 ?p2 (replicate 1096 ?z) = ?f2"
    by (simp add: write_bytes_def)
  have s3: "split_loop 4096 (2 ^ 32) ?src 3000 ?h2 ?f2 3 [?src, ?p2] = (Inr [?src, ?p2], ?f2)"
    by (rule split_loop_stop) (simp only: c2 r3)
  have n3: "(2::nat) + 1 = 3" by simp
  have ne1: "replicate 3000 ?z \<noteq> []" and ne2: "replicate 1096 ?z \<noteq> []" by simp_all
  have ns: "?src \<noteq> []" by simp
  have b1: "buffered_read 4096 (2 ^ 32) 3000 (file_content ?f0 ?src) ?h0 = Inr (replicate 3000 ?z, ?h1)"
    by (simp only: c0 r1)
  have b2: "buffered_read 4096 (2 ^ 32) 3000 (file_content ?f1 ?src) ?h1 = Inr (replicate 1096 ?z, ?h2)"
    by (simp only: c1 r2)
  have s2: "split_loop 4096 (2 ^ 32) ?src 3000 ?h1 ?f1 2 [?src] = (Inr [?src, ?p2], ?f2)"
    using split_loop_step [OF b2 ne2 ns, of 2 "[?src]"] s3
    unfolding p2 w2 by (simp only: n3 append_Cons append_Nil)
  have s1: "split_loop 4096 (2 ^ 32) ?src 3000 ?h0 ?f0 1 [] = (Inr [?src, ?p2], ?f2)"
    using split_loop_step [OF b1 ne1 ns, of 1 "[]"] s2
    unfolding p1 w1 by (simp only: one_add_one append_Nil)
  have a: "split_file 4096 (2 ^ 32) ?f0 ?src 3000 = (Inr [?src, ?p2], ?f2)"
    using s1 by (simp add: split_file_def read_bytes_def)
  have "cat_files ?f2 [?src, ?p2] = Some (replicate 3000 ?z @ replicate 1096 ?z)"
    by (simp add: read_bytes_def)
  moreover have "length (replicate 3000 ?z @ replicate 1096 ?z) \<noteq> length (replicate 5000 ?z)"
    by simp
  ultimately have b: "cat_files ?f2 [?src, ?p2] \<noteq> Some (replicate 5000 ?z)"
    by (metis option.inject)
  have ov: "buffered_read 4096 (2 ^ 32) (2 ^ 63)
              (file_content [([''tmp'', ''a.zip''], ''abc'')] [''tmp'', ''a.zip'']) ?h0
            = Inl OverflowError"
    by (simp add: buffered_read_def SSIZE_MAX_def)
  have c: "split_file 4096 (2 ^ 32) [([''tmp'', ''a.zip''], ''abc'')] [''tmp'', ''a.zip''] (2 ^ 63)
           = (Inl OverflowError, [([''tmp'', ''a.zip''], ''abc'')])"
    using split_loop_raise [OF ov, of 1 "[]"] by (simp add: split_file_def read_bytes_def)
  show ?thesis using a b c by simp
qed

text \<open>
  Claim C3, amended. Let \<open>src\<close> be a file of \<open>S\<close> bytes that is not named like one of its own
  parts, read through a buffer of positive size, and let the chunk ceiling \<open>C\<close> be positive
  and small enough for a \<^verbatim>\<open>bytes\<close> object of \<open>C\<close> bytes to be allocated. Then \<^verbatim>\<open>split_file\<close>
  returns a list of part files; reading them in index order and concatenating gives back
  exactly the \<open>S\<close> bytes of the source; there are \<open>\<lceil>S / C\<rceil>\<close> parts when \<open>S > 0\<close>, and none when
  the source has length zero.
\<close>

theorem split_file_roundtrip:
  assumes "read_bytes f src = Some content" and "src \<noteq> []"
    and "\<forall>n. with_suffix src (part_suffix n) \<noteq> Inr src"
    and "0 < B" and "0 < chunk_size"
    and "chunk_size \<le> SSIZE_MAX - BYTES_HEADER" and "nat chunk_size \<le> M"
  shows "\<exists>ps f'. split_file B M f src chunk_size = (Inr ps, f')
           \<and> cat_files f' ps = Some content
           \<and> (content \<noteq> [] \<longrightarrow>
                int (length ps) = \<lceil>real (length content) / real_of_int chunk_size\<rceil>)
           \<and> (content = [] \<longrightarrow> ps = [])"
proof -
  let ?n = "nat chunk_size"
  let ?ks = "map (part_path src) [1..<1 + length (chunks ?n content)]"
  have pos: "0 < ?n" using assms(5) by simp
  have na: "\<forall>n. part_path src n \<noteq> src"
    using assms(2,3) by (simp add: with_suffix_part_path)
  have u: "content = buffered \<lparr>buffered = [], raw_pos = 0\<rparr>
             @ drop (raw_pos \<lparr>buffered = [], raw_pos = 0\<rparr>) (file_content f src)"
    using assms(1) by (simp add: file_content_def)
  have sf: "split_file B M f src chunk_size = (Inr ?ks, AList.updates ?ks (chunks ?n content) f)"
    using assms(1) split_loop_eq [OF assms(2,4,5,6,7) na u, of 1 "[]"]
    by (simp add: split_file_def)
  have len: "length ?ks = length (chunks ?n content)"
    by (simp del: upt_Suc)
  have "cat_files (AList.updates ?ks (chunks ?n content) f) ?ks = Some (concat (chunks ?n content))"
    by (rule cat_files_updates [OF distinct_part_paths len])
  then have cat: "cat_files (AList.updates ?ks (chunks ?n content) f) ?ks = Some content"
    by (simp only: concat_chunks [OF pos])
  have "length ?ks = (length content + ?n - 1) div ?n"
    using len length_chunks [OF pos, of content] by (rule trans)
  then have "int (length ?ks) = int ((length content + ?n - 1) div ?n)"
    by (rule arg_cong)
  also have "\<dots> = \<lceil>real (length content) / real ?n\<rceil>"
    by (rule ceil_div_nat [OF pos])
  also have "\<dots> = \<lceil>real (length content) / real_of_int chunk_size\<rceil>"
    using assms(5) by simp
  finally have cnt: "int (length ?ks) = \<lceil>real (length content) / real_of_int chunk_size\<rceil>" .
  have emp: "content = [] \<longrightarrow> ?ks = []"
    by (simp add: chunks_Nil del: upt_Suc)
  show ?thesis
    using sf cat cnt emp by blast
qed

theorem split_file_roundtrip_witness:
  "read_bytes [([''tmp'', ''a.zip''], ''hello world'')] [''tmp'', ''a.zip''] = Some ''hello world''
   \<and> [''tmp'', ''a.zip''] \<noteq> []
   \<and> (\<forall>n. with_suffix [''tmp'', ''a.zip''] (part_suffix n) \<noteq> Inr [''tmp'', ''a.zip''])
   \<and> (0::nat) < 4096 \<and> (0::int) < 4 \<and> 4 \<le> SSIZE_MAX - BYTES_HEADER \<and> nat 4 \<le> 2 ^ 32
   \<and> (\<exists>ps f'. split_file 4096 (2 ^ 32) [([''tmp'', ''a.zip''], ''hello world'')]
                  [''tmp'', ''a.zip''] 4 = (Inr ps, f')
          \<and> cat_files f' ps = Some ''hello world''
          \<and> int (length ps) = 3)"
proof -
  let ?f = "[([''tmp'', ''a.zip''], ''hello world'')]"
  let ?src = "[''tmp'', ''a.zip'']"
  have h1: "read_bytes ?f ?src = Some ''hello world''"
    by (simp add: read_bytes_def)
  have h2: "?src \<noteq> []" by simp
  have stem: "path_stem ''a.zip'' = ''a''"
    by (simp add: path_stem_def path_suffix_def after_dot_def)
  have h3: "\<forall>n. with_suffix ?src (part_suffix n) \<noteq> Inr ?src"
    by (simp add: with_suffix_def stem part_suffix_def)
  have h4: "(0::nat) < 4096" by simp
  have h5: "(0::int) < 4" by simp
  have h6: "4 \<le> SSIZE_MAX - BYTES_HEADER" by (simp add: SSIZE_MAX_def BYTES_HEADER_def)
  have h7: "nat 4 \<le> (2::nat) ^ 32" by simp
  have c: "\<lceil>real (length ''hello world'') / real_of_int 4\<rceil> = 3"
    by (simp add: ceiling_eq_iff)
  show ?thesis
    using split_file_roundtrip [OF h1 h2 h3 h4 h5 h6 h7] h1 h3 h6 unfolding c by auto
qed

subsection \<open>File system and path facts\<close>

lemma read_write: "read_bytes (write_bytes f p d) q = (if q = p then Some d else read_bytes f q)"
  by (simp add: read_bytes_def write_bytes_def update_conv')

lemma read_unlink_missing_ok:
  "read_bytes (unlink_missing_ok f p) q = (if q = p then None else read_bytes f q)"
  by (simp add: read_bytes_def unlink_missing_ok_def delete_conv')

lemma unlink_Some: "unlink f p = Some f' \<Longrightarrow> f' = unlink_missing_ok f p \<and> read_bytes f p \<noteq> None"
  by (auto simp: unlink_def unlink_missing_ok_def split: if_splits)

lemma set_files_of: "p \<in> set (files_of f) \<longleftrightarrow> read_bytes f p \<noteq> None"
  by (simp add: files_of_def read_bytes_def map_of_eq_None_iff)

lemma read_rmtree: "read_bytes (rmtree_mkdir f d) q = (if below d q then None else read_bytes f q)"
  unfolding read_bytes_def rmtree_mkdir_def
  by (induction f) (auto split: if_splits)

lemma read_fold_unlink:
  "read_bytes (fold (\<lambda>p g. unlink_missing_ok g p) ps f) q = (if q \<in> set ps then None else read_bytes f q)"
  by (induction ps arbitrary: f) (auto simp: read_unlink_missing_ok)

lemma read_cleanup:
  "read_bytes (cleanup_parts f ps z) q = (if q \<in> set ps \<or> q = z then None else read_bytes f q)"
  by (simp add: cleanup_parts_def read_unlink_missing_ok read_fold_unlink)

lemma read_updates_notin:
  "q \<notin> set ks \<Longrightarrow> read_bytes (AList.updates ks vs f) q = read_bytes f q"
  by (simp add: read_bytes_def updates_conv')

lemma read_updates_nth:
  "distinct ks \<Longrightarrow> length ks = length vs \<Longrightarrow> i < length ks \<Longrightarrow>
   read_bytes (AList.updates ks vs f) (ks ! i) = Some (vs ! i)"
proof (induction ks arbitrary: vs f i)
  case Nil
  then show ?case by simp
next
  case (Cons k ks)
  then obtain v vs' where vs: "vs = v # vs'" by (cases vs) auto
  show ?case
  proof (cases i)
    case 0
    then show ?thesis
      using Cons.prems by (simp add: vs read_bytes_def updates_conv' update_conv')
  next
    case (Suc j)
    then show ?thesis
      using Cons.prems Cons.IH [of vs' j "AList.update k v f"] by (simp add: vs)
  qed
qed

lemma meta_path_eq: "meta_path = [''tmp'', ''quran_batch'', ''metadata.csv'']"
  by (simp add: meta_path_def joinpath_def path_parts_def TEMP_DIR_def)

lemma split_sep_no_sep: "CHR ''/'' \<notin> set s \<Longrightarrow> split_sep s = [s]"
  by (induction s) auto

lemma digit_char_in: "d < 10 \<Longrightarrow> digit_char d \<in> set ''0123456789''"
  unfolding digit_char_def by (rule nth_mem) simp

lemma set_dec: "set (dec n) \<subseteq> set ''0123456789''"
proof (induction n rule: dec.induct)
  case (1 n)
  show ?case
  proof (cases "n < 10")
    case True
    then show ?thesis using digit_char_in [of n] by (simp add: dec.simps [of n])
  next
    case False
    have "n mod 10 < 10" by simp
    then have "digit_char (n mod 10) \<in> set ''0123456789''" by (rule digit_char_in)
    then show ?thesis using "1" False by (simp add: dec.simps [of n])
  qed
qed

lemma set_zfill: "set (zfill w n) \<subseteq> set ''0123456789''"
  using set_dec [of n] by (auto simp: zfill_def)

lemma zfill_no_sep: "CHR ''/'' \<notin> set (zfill w n)" "CHR ''.'' \<notin> set (zfill w n)"
  using set_zfill [of w n] by auto

lemma strftime_no_sep: "CHR ''/'' \<notin> set (strftime t)" "CHR ''.'' \<notin> set (strftime t)"
  by (simp_all add: strftime_def zfill_no_sep)

lemma zip_path_eq: "zip_path_of e = [''tmp'', ''batch_'' @ strftime (utcnow e) @ ''.zip'']"
  using strftime_no_sep(1) [of "utcnow e"]
  by (simp add: zip_path_of_def path_parts_def split_sep_no_sep)

lemma stem_dot_zip: "CHR ''.'' \<notin> set a \<Longrightarrow> a \<noteq> [] \<Longrightarrow> path_stem (a @ ''.zip'') = a"
  by (simp add: path_stem_def path_suffix_def after_dot_def)

lemma last_zip_path: "last (zip_path_of e) = ''batch_'' @ strftime (utcnow e) @ ''.zip''"
  by (simp add: zip_path_eq)

lemma stem_zip_path: "path_stem (last (zip_path_of e)) = ''batch_'' @ strftime (utcnow e)"
proof -
  have "path_stem ((''batch_'' @ strftime (utcnow e)) @ ''.zip'') = ''batch_'' @ strftime (utcnow e)"
    by (rule stem_dot_zip) (simp_all add: strftime_no_sep)
  then show ?thesis
    by (simp add: last_zip_path)
qed

lemma part_path_zip:
  "part_path (zip_path_of e) n = [''tmp'', ''batch_'' @ strftime (utcnow e) @ part_suffix n]"
  unfolding part_path_def stem_zip_path by (simp add: zip_path_eq)

lemma part_path_not_zip: "part_path (zip_path_of e) n \<noteq> zip_path_of e"
  unfolding part_path_zip unfolding zip_path_eq by (simp add: part_suffix_def)

lemma not_below_zip: "\<not> below TEMP_DIR (zip_path_of e)"
  by (simp add: below_def zip_path_eq TEMP_DIR_def)

lemma not_below_part: "\<not> below TEMP_DIR (part_path (zip_path_of e) n)"
  unfolding part_path_zip by (simp add: below_def TEMP_DIR_def)

lemma below_meta: "below TEMP_DIR meta_path"
  by (simp add: below_def meta_path_eq TEMP_DIR_def)

subsection \<open>The upload loop\<close>

lemma upload_loop_Cons_cases:
  assumes "upload_loop e ts nr zs tp i (part # rest) fm s = (r, s')"
  obtains (Missing) "read_bytes (files s) part = None" "r = Some i" "s' = s"
  | (Refused) doc call where "read_bytes (files s) part = Some doc"
      "sc_filename call = last part" "sc_document call = doc"
      "sc_reply_to call = (if i > 1 then fm else None)"
      "send_document e (sent s) call = None" "r = Some i"
      "s' = s\<lparr>sent := sent s @ [(call, None)]\<rparr>"
  | (Sent) doc call mid where "read_bytes (files s) part = Some doc"
      "sc_filename call = last part" "sc_document call = doc"
      "sc_reply_to call = (if i > 1 then fm else None)"
      "send_document e (sent s) call = Some mid"
      "upload_loop e ts nr zs tp (i + 1) rest (if i = 1 then Some mid else fm)
         (s\<lparr>sent := sent s @ [(call, Some mid)],
            files := unlink_missing_ok (files s) part\<rparr>) = (r, s')"
proof (cases "read_bytes (files s) part")
  case None
  then have "r = Some i" "s' = s"
    using assms by (auto simp: st_size_def)
  with None show ?thesis by (rule Missing)
next
  case (Some doc)
  let ?call = "\<lparr>sc_filename = last part, sc_document = doc,
                 sc_caption = (if i = 1 then Summary ts nr zs i tp
                               else PartCaption i tp (last part) (length doc)),
                 sc_reply_to = (if i > 1 then fm else None)\<rparr>"
  show ?thesis
  proof (cases "send_document e (sent s) ?call")
    case None
    then have "r = Some i" "s' = s\<lparr>sent := sent s @ [(?call, None)]\<rparr>"
      using assms Some by (auto simp: st_size_def Let_def)
    then show ?thesis
      using Refused [of doc ?call] Some None by simp
  next
    case ans: (Some mid)
    have "upload_loop e ts nr zs tp (i + 1) rest (if i = 1 then Some mid else fm)
            (s\<lparr>sent := sent s @ [(?call, Some mid)],
               files := unlink_missing_ok (files s) part\<rparr>) = (r, s')"
      using assms Some ans
      by (simp add: st_size_def Let_def unlink_def unlink_missing_ok_def)
    then show ?thesis
      using Sent [of doc ?call mid] Some ans by simp
  qed
qed

lemma upload_loop_frame:
  "upload_loop e ts nr zs tp i ps fm s = (r, s') \<Longrightarrow>
   batches s' = batches s \<and> recordings s' = recordings s \<and> recorded s' = recorded s
   \<and> tasks_created s' = tasks_created s
   \<and> (\<forall>q. q \<notin> set ps \<longrightarrow> read_bytes (files s') q = read_bytes (files s) q)"
proof (induction ps arbitrary: i fm s)
  case Nil
  then show ?case by simp
next
  case (Cons part rest)
  from Cons.prems show ?case
  proof (cases rule: upload_loop_Cons_cases)
    case Missing
    then show ?thesis by simp
  next
    case (Refused doc call)
    then show ?thesis by simp
  next
    case (Sent doc call mid)
    show ?thesis
      using Cons.IH [OF Sent(6)] by (simp add: read_unlink_missing_ok)
  qed
qed

lemma upload_loop_done:
  "upload_loop e ts nr zs tp i ps fm s = (None, s') \<Longrightarrow>
   read_bytes (files s') q = (if q \<in> set ps then None else read_bytes (files s) q)"
proof (induction ps arbitrary: i fm s)
  case Nil
  then show ?case by simp
next
  case (Cons part rest)
  from Cons.prems show ?case
  proof (cases rule: upload_loop_Cons_cases)
    case Missing
    then show ?thesis by simp
  next
    case (Refused doc call)
    then show ?thesis by simp
  next
    case (Sent doc call mid)
    show ?thesis
      using Cons.IH [OF Sent(6)] by (simp add: read_unlink_missing_ok)
  qed
qed

lemma upload_loop_index:
  "upload_loop e ts nr zs tp i ps fm s = (Some k, s') \<Longrightarrow> i \<le> k \<and> k < i + length ps"
proof (induction ps arbitrary: i fm s)
  case Nil
  then show ?case by simp
next
  case (Cons part rest)
  from Cons.prems show ?case
  proof (cases rule: upload_loop_Cons_cases)
    case Missing
    then show ?thesis by simp
  next
    case (Refused doc call)
    then show ?thesis by simp
  next
    case (Sent doc call mid)
    show ?thesis
      using Cons.IH [OF Sent(6)] by simp
  qed
qed

text \<open>The calls the loop makes, in order.\<close>

lemma upload_loop_sent:
  assumes "upload_loop e ts nr zs tp i ps fm s = (r, s')" and "1 \<le> i"
  shows "\<exists>calls. sent s' = sent s @ calls \<and> length calls \<le> length ps
           \<and> (r = None \<longrightarrow> length calls = length ps)
           \<and> (\<forall>j < length calls.
                 sc_filename (fst (calls ! j)) = last (ps ! j)
                 \<and> read_bytes (files s) (ps ! j) \<noteq> None
                 \<and> sc_reply_to (fst (calls ! j)) =
                     (if i + j = 1 then None else if i = 1 then snd (calls ! 0) else fm)
                 \<and> (j + 1 < length calls \<longrightarrow> snd (calls ! j) \<noteq> None))"
  using assms
proof (induction ps arbitrary: i fm s)
  case Nil
  then show ?case by simp
next
  case (Cons part rest)
  from Cons.prems(1) show ?case
  proof (cases rule: upload_loop_Cons_cases)
    case Missing
    then show ?thesis by simp
  next
    case (Refused doc call)
    have "sent s' = sent s @ [(call, None)]" using Refused by simp
    moreover have "sc_reply_to call = (if i + 0 = 1 then None else if i = 1 then None else fm)"
      using Refused(4) Cons.prems(2) by auto
    ultimately show ?thesis
      using Refused(1,2,6) by (intro exI [of _ "[(call, None)]"]) simp
  next
    case (Sent doc call mid)
    let ?s1 = "s\<lparr>sent := sent s @ [(call, Some mid)], files := unlink_missing_ok (files s) part\<rparr>"
    let ?fm = "if i = 1 then Some mid else fm"
    obtain calls where c: "sent s' = sent ?s1 @ calls" "length calls \<le> length rest"
      "r = None \<longrightarrow> length calls = length rest"
      "\<forall>j < length calls.
          sc_filename (fst (calls ! j)) = last (rest ! j)
          \<and> read_bytes (files ?s1) (rest ! j) \<noteq> None
          \<and> sc_reply_to (fst (calls ! j)) =
              (if (i + 1) + j = 1 then None else if i + 1 = 1 then snd (calls ! 0) else ?fm)
          \<and> (j + 1 < length calls \<longrightarrow> snd (calls ! j) \<noteq> None)"
      using Cons.IH [OF Sent(6)] by auto
    let ?calls = "(call, Some mid) # calls"
    have a: "sent s' = sent s @ ?calls" using c(1) by simp
    have b: "length ?calls \<le> length (part # rest)" using c(2) by simp
    have d: "r = None \<longrightarrow> length ?calls = length (part # rest)" using c(3) by simp
    have e: "sc_filename (fst (?calls ! j)) = last ((part # rest) ! j)
          \<and> read_bytes (files s) ((part # rest) ! j) \<noteq> None
          \<and> sc_reply_to (fst (?calls ! j)) =
              (if i + j = 1 then None else if i = 1 then snd (?calls ! 0) else fm)
          \<and> (j + 1 < length ?calls \<longrightarrow> snd (?calls ! j) \<noteq> None)"
      if "j < length ?calls" for j
    proof (cases j)
      case 0
      then show ?thesis using Sent(1,2,4) Cons.prems(2) by auto
    next
      case (Suc j')
      then have "j' < length calls" using that by simp
      then show ?thesis
        using c(4) Suc Cons.prems(2) by (auto simp: read_unlink_missing_ok split: if_splits)
    qed
    show ?thesis
      using a b d e by blast
  qed
qed

subsection \<open>Stages of a batch upload\<close>

lemma chunk_size_pos: "0 < CHUNK_SIZE_BYTES"
  by (simp add: CHUNK_SIZE_BYTES_def)

lemma zip_path_nonempty: "zip_path_of e \<noteq> []"
  by (simp add: zip_path_eq)

lemma read_write_archive_zip:
  "\<exists>archive. read_bytes (write_archive e f rows) (zip_path_of e) = Some archive"
  by (simp add: write_archive_def Let_def read_write)

lemma meta_not_zip: "meta_path \<noteq> zip_path_of e"
  by (simp add: meta_path_eq zip_path_eq)

lemma read_write_archive_meta:
  "read_bytes (write_archive e f rows) meta_path = Some (csv_bytes rows)"
  by (simp add: write_archive_def Let_def read_write meta_not_zip)

lemma read_write_archive_other:
  "q \<noteq> meta_path \<Longrightarrow> q \<noteq> zip_path_of e \<Longrightarrow> read_bytes (write_archive e f rows) q = read_bytes f q"
  by (simp add: write_archive_def Let_def read_write)

text \<open>The parts of the archive: their names and what they hold.\<close>

lemma chunk_size_fits: "CHUNK_SIZE_BYTES \<le> SSIZE_MAX - BYTES_HEADER"
  by (simp add: CHUNK_SIZE_BYTES_def SSIZE_MAX_def BYTES_HEADER_def)

lemma split_file_zip:
  assumes "read_bytes f (zip_path_of e) = Some archive"
    and "0 < buffer_size e" and "nat CHUNK_SIZE_BYTES \<le> max_alloc e"
  shows "split_file (buffer_size e) (max_alloc e) f (zip_path_of e) CHUNK_SIZE_BYTES =
         (Inr (map (part_path (zip_path_of e))
                 [1..<1 + length (chunks (nat CHUNK_SIZE_BYTES) archive)]),
          AList.updates
            (map (part_path (zip_path_of e))
               [1..<1 + length (chunks (nat CHUNK_SIZE_BYTES) archive)])
            (chunks (nat CHUNK_SIZE_BYTES) archive) f)"
proof -
  have na: "\<forall>n. part_path (zip_path_of e) n \<noteq> zip_path_of e"
    by (simp add: part_path_not_zip)
  have u: "archive = buffered \<lparr>buffered = [], raw_pos = 0\<rparr>
             @ drop (raw_pos \<lparr>buffered = [], raw_pos = 0\<rparr>) (file_content f (zip_path_of e))"
    using assms(1) by (simp add: file_content_def)
  show ?thesis
    using assms(1)
      split_loop_eq [OF zip_path_nonempty assms(2) chunk_size_pos chunk_size_fits assms(3) na u,
        of 1 "[]"]
    by (simp add: split_file_def)
qed

lemma split_file_zip_parts:
  assumes "split_file B M f (zip_path_of e) c = (Inr ps, f3)"
  shows "ps = map (part_path (zip_path_of e)) [1..<1 + length ps]
         \<and> (\<forall>q. q \<notin> set ps \<longrightarrow> read_bytes f3 q = read_bytes f q)"
proof (cases "read_bytes f (zip_path_of e)")
  case None
  then show ?thesis using assms by (simp add: split_file_def)
next
  case (Some archive)
  then have "split_loop B M (zip_path_of e) c \<lparr>buffered = [], raw_pos = 0\<rparr> f 1 [] = (Inr ps, f3)"
    using assms by (simp add: split_file_def)
  then obtain k where k: "ps = [] @ map (part_path (zip_path_of e)) [1..<1 + k]"
    "\<forall>q. q \<notin> part_path (zip_path_of e) ` {1..<1 + k} \<longrightarrow> read_bytes f3 q = read_bytes f q"
    using split_loop_names by blast
  have len: "length ps = k"
    using k(1) by (simp del: upt_Suc)
  have st: "set ps = part_path (zip_path_of e) ` {1..<1 + k}"
    using k(1) by (simp del: upt_Suc)
  show ?thesis
    using k unfolding len st [symmetric] by simp
qed

lemma split_file_zip_names:
  assumes "split_file B M f (zip_path_of e) c = (Inr ps, f3)"
  shows "\<forall>p \<in> set ps. \<exists>n. p = part_path (zip_path_of e) n"
proof -
  have "ps = map (part_path (zip_path_of e)) [1..<1 + length ps]"
    using split_file_zip_parts [OF assms] by simp
  then have "set ps = part_path (zip_path_of e) ` set [1..<1 + length ps]"
    by (metis set_map)
  then show ?thesis by blast
qed

lemma part_notin_scratch:
  assumes "\<forall>p \<in> set ps. \<exists>n. p = part_path (zip_path_of e) n"
  shows "zip_path_of e \<notin> set ps" and "meta_path \<notin> set ps"
    and "below TEMP_DIR q \<Longrightarrow> q \<notin> set ps"
proof -
  show "zip_path_of e \<notin> set ps"
    using assms part_path_not_zip by metis
  show "below TEMP_DIR q \<Longrightarrow> q \<notin> set ps" for q
    using assms not_below_part by metis
  then show "meta_path \<notin> set ps"
    using below_meta by blast
qed

lemma upload_batch_AbortedD:
  assumes "upload_batch e s = (Aborted k, s')"
  obtains rows zs ps f3 s4 where
    "build_rows e (glob_wav (files s) TEMP_DIR) = Inr rows"
    "split_file (buffer_size e) (max_alloc e) (write_archive e (files s) rows) (zip_path_of e)
       CHUNK_SIZE_BYTES = (Inr ps, f3)"
    "upload_loop e (strftime (utcnow e)) (length rows) zs (length ps) 1 ps None
       (s\<lparr>files := f3\<rparr>) = (Some k, s4)"
    "s' = s4\<lparr>files := cleanup_parts (files s4) ps (zip_path_of e)\<rparr>"
  using assms unfolding upload_batch_def Let_def
  by (auto split: sum.splits option.splits prod.splits if_splits)

lemma upload_batch_CommittedD:
  assumes "upload_batch e s = (Committed, s')"
  obtains rows zs ps f3 s4 where
    "build_rows e (glob_wav (files s) TEMP_DIR) = Inr rows"
    "st_size (write_archive e (files s) rows) (zip_path_of e) = Some zs"
    "split_file (buffer_size e) (max_alloc e) (write_archive e (files s) rows) (zip_path_of e)
       CHUNK_SIZE_BYTES = (Inr ps, f3)"
    "upload_loop e (strftime (utcnow e)) (length rows) zs (length ps) 1 ps None
       (s\<lparr>files := f3\<rparr>) = (None, s4)"
    "s' = s4\<lparr>batches := batches s4 @
             [\<lparr>batch_name = last (zip_path_of e), file_count = length rows, size_bytes = zs,
               parts = length ps, uploaded_at = utcnow_end e, status = ''uploaded''\<rparr>],
            files := rmtree_mkdir (unlink_missing_ok (files s4) (zip_path_of e)) TEMP_DIR\<rparr>"
  using assms unfolding upload_batch_def Let_def
  by (auto split: sum.splits option.splits prod.splits if_splits)

lemma length_build_rows: "build_rows e wavs = Inr rows \<Longrightarrow> length rows = length wavs"
  by (induction wavs arbitrary: rows) (auto split: select_result.splits sum.splits)

lemma in_glob_wav:
  "p \<in> set (glob_wav f d) \<longleftrightarrow>
   read_bytes f p \<noteq> None \<and> p \<noteq> [] \<and> butlast p = d \<and> endswith (last p) ''.wav''"
  by (auto simp: glob_wav_def iterdir_def set_files_of)

lemma in_iterdir:
  "p \<in> set (iterdir f d) \<longleftrightarrow> read_bytes f p \<noteq> None \<and> p \<noteq> [] \<and> butlast p = d"
  by (auto simp: iterdir_def set_files_of)

lemma wav_below: "p \<in> set (glob_wav f TEMP_DIR) \<Longrightarrow> below TEMP_DIR p"
proof -
  assume "p \<in> set (glob_wav f TEMP_DIR)"
  then have p: "p \<noteq> []" "butlast p = TEMP_DIR" by (simp_all add: in_glob_wav)
  then have "p = TEMP_DIR @ [last p]" by (metis append_butlast_last_id)
  then obtain x where "p = TEMP_DIR @ [x]" ..
  then show ?thesis by (simp add: below_def)
qed

lemma wav_not_meta: "p \<in> set (glob_wav f TEMP_DIR) \<Longrightarrow> p \<noteq> meta_path"
  by (auto simp: in_glob_wav meta_path_eq endswith_def)

subsection \<open>Listings depend on the files only\<close>

lemma distinct_files_of: "distinct (files_of f)"
  by (simp add: files_of_def)

lemma sorted_distinct_iterdir: "sorted (iterdir f d)" "distinct (iterdir f d)"
  by (simp_all add: iterdir_def distinct_files_of)

lemma iterdir_cong:
  assumes "\<forall>p. p \<noteq> [] \<and> butlast p = d \<longrightarrow> (read_bytes f p = None \<longleftrightarrow> read_bytes g p = None)"
  shows "iterdir f d = iterdir g d"
proof (rule sorted_distinct_set_unique)
  show "set (iterdir f d) = set (iterdir g d)"
    using assms by (auto simp: in_iterdir)
qed (simp_all add: sorted_distinct_iterdir)

lemma glob_wav_cong:
  assumes "\<forall>p. p \<noteq> [] \<and> butlast p = d \<and> endswith (last p) ''.wav''
             \<longrightarrow> (read_bytes f p = None \<longleftrightarrow> read_bytes g p = None)"
  shows "glob_wav f d = glob_wav g d"
proof (rule sorted_distinct_set_unique)
  show "set (glob_wav f d) = set (glob_wav g d)"
    using assms by (auto simp: in_glob_wav)
  show "sorted (glob_wav f d)" "sorted (glob_wav g d)"
    by (simp_all add: glob_wav_def sorted_distinct_iterdir sorted_wrt_filter)
  show "distinct (glob_wav f d)" "distinct (glob_wav g d)"
    by (simp_all add: glob_wav_def sorted_distinct_iterdir)
qed

subsection \<open>Runs of the upload loop\<close>

lemma upload_loop_all_sent:
  assumes "distinct ps" and "\<forall>p \<in> set ps. read_bytes (files s) p \<noteq> None"
    and "\<forall>h c. send_document e h c \<noteq> None"
  shows "fst (upload_loop e ts nr zs tp i ps fm s) = None"
  using assms(1,2)
proof (induction ps arbitrary: i fm s)
  case Nil
  then show ?case by simp
next
  case (Cons part rest)
  obtain r s' where res: "upload_loop e ts nr zs tp i (part # rest) fm s = (r, s')"
    by (cases "upload_loop e ts nr zs tp i (part # rest) fm s")
  from res show ?case
  proof (cases rule: upload_loop_Cons_cases)
    case Missing
    then show ?thesis using Cons.prems by simp
  next
    case (Refused doc call)
    then show ?thesis using assms(3) by simp
  next
    case (Sent doc call mid)
    let ?s1 = "s\<lparr>sent := sent s @ [(call, Some mid)],
                  files := unlink_missing_ok (files s) part\<rparr>"
    have "fst (upload_loop e ts nr zs tp (i + 1) rest (if i = 1 then Some mid else fm) ?s1) = None"
      using Cons.prems by (intro Cons.IH) (auto simp: read_unlink_missing_ok)
    then show ?thesis using Sent(6) res by simp
  qed
qed

lemma upload_loop_refused_at:
  assumes "distinct ps" and "\<forall>p \<in> set ps. read_bytes (files s) p \<noteq> None"
    and "\<forall>h c. send_document e h c = None \<longleftrightarrow> length h = m"
    and "length (sent s) \<le> m" and "m - length (sent s) < length ps"
  shows "fst (upload_loop e ts nr zs tp i ps fm s) = Some (i + (m - length (sent s)))"
  using assms(1,2,4,5)
proof (induction ps arbitrary: i fm s)
  case Nil
  then show ?case by simp
next
  case (Cons part rest)
  obtain r s' where res: "upload_loop e ts nr zs tp i (part # rest) fm s = (r, s')"
    by (cases "upload_loop e ts nr zs tp i (part # rest) fm s")
  from res show ?case
  proof (cases rule: upload_loop_Cons_cases)
    case Missing
    then show ?thesis using Cons.prems by simp
  next
    case (Refused doc call)
    then have "length (sent s) = m" using assms(3) by blast
    then show ?thesis using Refused res by simp
  next
    case (Sent doc call mid)
    let ?s1 = "s\<lparr>sent := sent s @ [(call, Some mid)],
                  files := unlink_missing_ok (files s) part\<rparr>"
    have lt: "length (sent s) < m"
      using Sent(5) assms(3) Cons.prems(3) by (metis le_neq_implies_less option.distinct(1))
    have "fst (upload_loop e ts nr zs tp (i + 1) rest (if i = 1 then Some mid else fm) ?s1)
          = Some ((i + 1) + (m - length (sent ?s1)))"
      using Cons.prems lt by (intro Cons.IH) (auto simp: read_unlink_missing_ok)
    moreover have "(i + 1) + (m - length (sent ?s1)) = i + (m - length (sent s))"
      using lt by simp
    ultimately show ?thesis using Sent(6) res by simp
  qed
qed

subsection \<open>Outcomes of a batch upload\<close>

lemma parts_readable:
  assumes "distinct ks" and "length ks = length vs" and "p \<in> set ks"
  shows "read_bytes (AList.updates ks vs f) p \<noteq> None"
proof -
  obtain i where "i < length ks" "ks ! i = p"
    using assms(3) by (auto simp: in_set_conv_nth)
  then show ?thesis
    using read_updates_nth [OF assms(1,2), of i f] by auto
qed

lemma st_size_write_archive:
  "\<exists>zs. st_size (write_archive e f rows) (zip_path_of e) = Some zs"
  using read_write_archive_zip [of e f rows] by (auto simp: st_size_def)

text \<open>The run up to the upload loop, when the store answers every lookup and the chunk
  ceiling can be allocated.\<close>

lemma upload_batch_loop:
  assumes "build_rows e (glob_wav (files s) TEMP_DIR) = Inr rows"
    and "0 < buffer_size e" and "nat CHUNK_SIZE_BYTES \<le> max_alloc e"
  obtains archive zs where
    "read_bytes (write_archive e (files s) rows) (zip_path_of e) = Some archive"
    "st_size (write_archive e (files s) rows) (zip_path_of e) = Some zs"
    "split_file (buffer_size e) (max_alloc e) (write_archive e (files s) rows) (zip_path_of e)
       CHUNK_SIZE_BYTES =
     (Inr (map (part_path (zip_path_of e))
             [1..<1 + length (chunks (nat CHUNK_SIZE_BYTES) archive)]),
      AList.updates
        (map (part_path (zip_path_of e))
           [1..<1 + length (chunks (nat CHUNK_SIZE_BYTES) archive)])
        (chunks (nat CHUNK_SIZE_BYTES) archive) (write_archive e (files s) rows))"
proof -
  obtain archive where a: "read_bytes (write_archive e (files s) rows) (zip_path_of e) = Some archive"
    using read_write_archive_zip by blast
  then have "st_size (write_archive e (files s) rows) (zip_path_of e) = Some (length archive)"
    by (simp add: st_size_def)
  then show ?thesis
    using that a split_file_zip [OF a assms(2,3)] by blast
qed

subsection \<open>The pending byte total\<close>

lemma finite_scratch: "finite {p. below TEMP_DIR p \<and> read_bytes f p \<noteq> None}"
proof (rule finite_subset)
  show "{p. below TEMP_DIR p \<and> read_bytes f p \<noteq> None} \<subseteq> set (files_of f)"
    by (auto simp: set_files_of)
qed simp

lemma get_batch_size_sum:
  "get_batch_size f =
     (\<Sum>p \<in> {p. below TEMP_DIR p \<and> read_bytes f p \<noteq> None}.
        case read_bytes f p of Some d \<Rightarrow> length d | None \<Rightarrow> 0)"
proof -
  have d: "distinct (rglob_files f TEMP_DIR)"
    by (simp add: rglob_files_def distinct_files_of)
  have s: "set (rglob_files f TEMP_DIR) = {p. below TEMP_DIR p \<and> read_bytes f p \<noteq> None}"
    by (auto simp: rglob_files_def set_files_of)
  show ?thesis
    unfolding get_batch_size_def sum_list_distinct_conv_sum_set [OF d] s ..
qed

lemma get_batch_size_add:
  assumes "below TEMP_DIR p" and "read_bytes f p = None"
    and "\<forall>q. below TEMP_DIR q \<longrightarrow> read_bytes g q = (if q = p then Some d else read_bytes f q)"
  shows "get_batch_size g = get_batch_size f + length d"
proof -
  let ?A = "{q. below TEMP_DIR q \<and> read_bytes f q \<noteq> None}"
  have A: "{q. below TEMP_DIR q \<and> read_bytes g q \<noteq> None} = insert p ?A"
    using assms by auto
  have notin: "p \<notin> ?A" using assms(2) by simp
  have same: "(\<Sum>q \<in> ?A. case read_bytes g q of Some d \<Rightarrow> length d | None \<Rightarrow> 0)
            = (\<Sum>q \<in> ?A. case read_bytes f q of Some d \<Rightarrow> length d | None \<Rightarrow> 0)"
  proof (rule sum.cong)
    fix q assume "q \<in> ?A"
    then have "read_bytes g q = read_bytes f q" using assms(2,3) by auto
    then show "(case read_bytes g q of Some d \<Rightarrow> length d | None \<Rightarrow> 0)
             = (case read_bytes f q of Some d \<Rightarrow> length d | None \<Rightarrow> 0)" by simp
  qed simp
  have p: "read_bytes g p = Some d" using assms(1,3) by simp
  show ?thesis
    unfolding get_batch_size_sum A
    using notin finite_scratch [of f] same p by simp
qed

lemma nil_if_no_member: "(\<And>x. x \<notin> set xs) \<Longrightarrow> xs = []"
  by (cases xs) auto

lemma scratch_empty:
  assumes "\<forall>q. below TEMP_DIR q \<longrightarrow> read_bytes f q = None"
  shows "iterdir f TEMP_DIR = []" and "rglob_files f TEMP_DIR = []" and "get_batch_size f = 0"
proof -
  have b: "below TEMP_DIR p" if "p \<noteq> []" "butlast p = TEMP_DIR" for p
  proof -
    have "p = TEMP_DIR @ [last p]" using that by (metis append_butlast_last_id)
    then obtain x where "p = TEMP_DIR @ [x]" ..
    then show ?thesis by (simp add: below_def)
  qed
  show "iterdir f TEMP_DIR = []"
  proof (rule nil_if_no_member)
    fix p
    show "p \<notin> set (iterdir f TEMP_DIR)"
    proof
      assume "p \<in> set (iterdir f TEMP_DIR)"
      then have r: "read_bytes f p \<noteq> None" and p: "p \<noteq> []" "butlast p = TEMP_DIR"
        by (simp_all add: in_iterdir)
      have "read_bytes f p = None" using assms b [OF p] by simp
      then show False using r by simp
    qed
  qed
  show r: "rglob_files f TEMP_DIR = []"
  proof (rule nil_if_no_member)
    fix p
    show "p \<notin> set (rglob_files f TEMP_DIR)"
    proof
      assume "p \<in> set (rglob_files f TEMP_DIR)"
      then have bl: "below TEMP_DIR p" and r: "read_bytes f p \<noteq> None"
        by (simp_all add: rglob_files_def set_files_of)
      have "read_bytes f p = None" using assms bl by simp
      then show False using r by simp
    qed
  qed
  show "get_batch_size f = 0"
    by (simp add: get_batch_size_def r)
qed

lemma upload_batch_commits:
  assumes "build_rows e (glob_wav (files s) TEMP_DIR) = Inr rows"
    and "0 < buffer_size e" and "nat CHUNK_SIZE_BYTES \<le> max_alloc e"
    and "\<forall>h c. send_document e h c \<noteq> None" and "\<forall>row. insert_batch e row"
  shows "fst (upload_batch e s) = Committed"
proof -
  obtain archive zs where
    zs: "st_size (write_archive e (files s) rows) (zip_path_of e) = Some zs"
    and sf: "split_file (buffer_size e) (max_alloc e) (write_archive e (files s) rows)
               (zip_path_of e) CHUNK_SIZE_BYTES =
             (Inr (map (part_path (zip_path_of e))
                     [1..<1 + length (chunks (nat CHUNK_SIZE_BYTES) archive)]),
              AList.updates
                (map (part_path (zip_path_of e))
                   [1..<1 + length (chunks (nat CHUNK_SIZE_BYTES) archive)])
                (chunks (nat CHUNK_SIZE_BYTES) archive) (write_archive e (files s) rows))"
    using upload_batch_loop [OF assms(1-3)] by metis
  define ps where "ps = map (part_path (zip_path_of e))
                     [1..<1 + length (chunks (nat CHUNK_SIZE_BYTES) archive)]"
  define f3 where "f3 = AList.updates ps (chunks (nat CHUNK_SIZE_BYTES) archive)
                     (write_archive e (files s) rows)"
  have d: "distinct ps" unfolding ps_def by (rule distinct_part_paths)
  have l: "length ps = length (chunks (nat CHUNK_SIZE_BYTES) archive)"
    unfolding ps_def by (simp del: upt_Suc)
  have rd: "\<forall>p \<in> set ps. read_bytes (files (s\<lparr>files := f3\<rparr>)) p \<noteq> None"
    unfolding f3_def using parts_readable [OF d l] by simp
  have lp: "fst (upload_loop e (strftime (utcnow e)) (length rows) zs (length ps) 1 ps None
                   (s\<lparr>files := f3\<rparr>)) = None"
    by (rule upload_loop_all_sent [OF d rd assms(4)])
  then obtain s4 where lp': "upload_loop e (strftime (utcnow e)) (length rows) zs (length ps) 1 ps
                   None (s\<lparr>files := f3\<rparr>) = (None, s4)"
    by (cases "upload_loop e (strftime (utcnow e)) (length rows) zs (length ps) 1 ps
                   None (s\<lparr>files := f3\<rparr>)") auto
  show ?thesis
    unfolding upload_batch_def Let_def
    using assms(1,5) zs sf lp' unfolding ps_def [symmetric] f3_def [symmetric]
    by simp
qed

lemma upload_batch_aborts:
  assumes "build_rows e (glob_wav (files s) TEMP_DIR) = Inr rows"
    and "0 < buffer_size e" and "nat CHUNK_SIZE_BYTES \<le> max_alloc e"
    and "\<forall>h c. send_document e h c = None \<longleftrightarrow> length h = m"
    and "length (sent s) \<le> m"
    and "read_bytes (write_archive e (files s) rows) (zip_path_of e) = Some archive"
    and "m - length (sent s) < length (chunks (nat CHUNK_SIZE_BYTES) archive)"
  shows "fst (upload_batch e s) = Aborted (1 + (m - length (sent s)))"
proof -
  have zs: "st_size (write_archive e (files s) rows) (zip_path_of e) = Some (length archive)"
    using assms(6) by (simp add: st_size_def)
  define ps where "ps = map (part_path (zip_path_of e))
                     [1..<1 + length (chunks (nat CHUNK_SIZE_BYTES) archive)]"
  define f3 where "f3 = AList.updates ps (chunks (nat CHUNK_SIZE_BYTES) archive)
                     (write_archive e (files s) rows)"
  have sf: "split_file (buffer_size e) (max_alloc e) (write_archive e (files s) rows)
               (zip_path_of e) CHUNK_SIZE_BYTES = (Inr ps, f3)"
    unfolding ps_def f3_def by (rule split_file_zip [OF assms(6,2,3)])
  have d: "distinct ps" unfolding ps_def by (rule distinct_part_paths)
  have l: "length ps = length (chunks (nat CHUNK_SIZE_BYTES) archive)"
    unfolding ps_def by (simp del: upt_Suc)
  have rd: "\<forall>p \<in> set ps. read_bytes (files (s\<lparr>files := f3\<rparr>)) p \<noteq> None"
    unfolding f3_def using parts_readable [OF d l] by simp
  have le: "length (sent (s\<lparr>files := f3\<rparr>)) \<le> m" using assms(5) by simp
  have lt: "m - length (sent (s\<lparr>files := f3\<rparr>)) < length ps" using assms(7) l by simp
  have lp: "fst (upload_loop e (strftime (utcnow e)) (length rows) (length archive) (length ps)
                   1 ps None (s\<lparr>files := f3\<rparr>))
            = Some (1 + (m - length (sent (s\<lparr>files := f3\<rparr>))))"
    by (rule upload_loop_refused_at [OF d rd assms(4) le lt])
  then obtain s4 where lp': "upload_loop e (strftime (utcnow e)) (length rows) (length archive)
                   (length ps) 1 ps None (s\<lparr>files := f3\<rparr>)
            = (Some (1 + (m - length (sent s))), s4)"
    by (cases "upload_loop e (strftime (utcnow e)) (length rows) (length archive)
                   (length ps) 1 ps None (s\<lparr>files := f3\<rparr>)") auto
  show ?thesis
    unfolding upload_batch_def Let_def
    using assms(1) zs sf lp'
    by simp
qed

subsection \<open>The example deployment\<close>

lemma chunks_big:
  "chunks (nat CHUNK_SIZE_BYTES) big_archive =
     [replicate 47185920 (CHR 0x00), replicate 47185920 (CHR 0x00), replicate 5628160 (CHR 0x00)]"
  by (simp add: chunks_step chunks_Nil CHUNK_SIZE_BYTES_def big_archive_def)

lemma ex_glob:
  "glob_wav (files ex_state) TEMP_DIR =
     [[''tmp'', ''quran_batch'', ''a.wav''], [''tmp'', ''quran_batch'', ''b.wav''],
      [''tmp'', ''quran_batch'', ''c.wav'']]"
  by (simp add: glob_wav_def iterdir_def files_of_def ex_state_def TEMP_DIR_def endswith_def
      less_eq_char_def less_char_def)

lemma ex_rows:
  "build_rows (ex_env a c) (glob_wav (files ex_state) TEMP_DIR) =
     Inr [(''a.wav'', ''alif''), (''b.wav'', []), (''c.wav'', [])]"
  unfolding ex_glob
  by (simp add: ex_env_def path_stem_def path_suffix_def after_dot_def)

lemma ex_env_fits: "0 < buffer_size (ex_env a c)" "nat CHUNK_SIZE_BYTES \<le> max_alloc (ex_env a c)"
  by (simp_all add: ex_env_def CHUNK_SIZE_BYTES_def)

lemma ex_archive: "read_bytes (write_archive (ex_env a c) f rows) (zip_path_of (ex_env a c)) = Some a"
  by (simp add: write_archive_def Let_def read_write ex_env_def)

lemma ex_aborts: "fst (upload_batch (ex_env big_archive refusing_second) ex_state) = Aborted 2"
proof -
  have ch: "\<forall>h c. send_document (ex_env big_archive refusing_second) h c = None \<longleftrightarrow> length h = 1"
    by (simp add: ex_env_def refusing_second_def)
  have le: "length (sent ex_state) \<le> 1" by (simp add: ex_state_def)
  have lt: "1 - length (sent ex_state) < length (chunks (nat CHUNK_SIZE_BYTES) big_archive)"
    unfolding chunks_big by (simp add: ex_state_def)
  have "fst (upload_batch (ex_env big_archive refusing_second) ex_state)
        = Aborted (1 + (1 - length (sent ex_state)))"
    by (rule upload_batch_aborts [OF ex_rows ex_env_fits ch le ex_archive lt])
  then show ?thesis by (simp add: ex_state_def)
qed

lemma ex_commits: "fst (upload_batch (ex_env a accepting) ex_state) = Committed"
  by (rule upload_batch_commits [OF ex_rows ex_env_fits])
    (simp_all add: ex_env_def accepting_def)

lemma ex_parts:
  assumes "split_file (buffer_size (ex_env big_archive c)) (max_alloc (ex_env big_archive c))
             (write_archive (ex_env big_archive c) f rows) (zip_path_of (ex_env big_archive c))
             CHUNK_SIZE_BYTES = (Inr ps, f3)"
  shows "ps = [part_path (zip_path_of (ex_env big_archive c)) 1,
               part_path (zip_path_of (ex_env big_archive c)) 2,
               part_path (zip_path_of (ex_env big_archive c)) 3]"
proof -
  have "ps = map (part_path (zip_path_of (ex_env big_archive c)))
               [1..<1 + length (chunks (nat CHUNK_SIZE_BYTES) big_archive)]"
    using assms split_file_zip [OF ex_archive ex_env_fits, of big_archive c f rows] by simp
  moreover have "[1..<1 + length (chunks (nat CHUNK_SIZE_BYTES) big_archive)] = [1, 2, 3]"
    unfolding chunks_big by (simp add: upt_rec)
  ultimately show ?thesis by simp
qed

lemma wav_not_zip: "p \<in> set (glob_wav f TEMP_DIR) \<Longrightarrow> p \<noteq> zip_path_of e"
  using wav_below not_below_zip by metis

lemma wav_not_part:
  "p \<in> set (glob_wav f TEMP_DIR) \<Longrightarrow> \<forall>q \<in> set ps. \<exists>n. q = part_path (zip_path_of e) n
   \<Longrightarrow> p \<notin> set ps"
  using wav_below part_notin_scratch(3) by metis

text \<open>What an aborted run leaves on disk: the manifest is written, the archive and the parts
  are gone, every other file is as it was.\<close>

lemma upload_batch_aborted_files:
  assumes "upload_batch e s = (Aborted k, s')"
  obtains rows ps f3 where
    "build_rows e (glob_wav (files s) TEMP_DIR) = Inr rows"
    "split_file (buffer_size e) (max_alloc e) (write_archive e (files s) rows) (zip_path_of e)
       CHUNK_SIZE_BYTES = (Inr ps, f3)"
    "1 \<le> k" "k \<le> length ps"
    "batches s' = batches s"
    "\<forall>q. read_bytes (files s') q =
        (if q \<in> set ps \<or> q = zip_path_of e then None
         else if q = meta_path then Some (csv_bytes rows)
         else read_bytes (files s) q)"
proof -
  obtain rows zs ps f3 s4 where
    rows: "build_rows e (glob_wav (files s) TEMP_DIR) = Inr rows"
    and sf: "split_file (buffer_size e) (max_alloc e) (write_archive e (files s) rows)
               (zip_path_of e) CHUNK_SIZE_BYTES = (Inr ps, f3)"
    and lp: "upload_loop e (strftime (utcnow e)) (length rows) zs (length ps) 1 ps None
               (s\<lparr>files := f3\<rparr>) = (Some k, s4)"
    and s': "s' = s4\<lparr>files := cleanup_parts (files s4) ps (zip_path_of e)\<rparr>"
    using upload_batch_AbortedD [OF assms] by metis
  have names: "\<forall>p \<in> set ps. \<exists>n. p = part_path (zip_path_of e) n"
    by (rule split_file_zip_names [OF sf])
  have f3: "\<forall>q. q \<notin> set ps \<longrightarrow> read_bytes f3 q = read_bytes (write_archive e (files s) rows) q"
    using split_file_zip_parts [OF sf] by simp
  have fr: "batches s4 = batches s"
    "\<forall>q. q \<notin> set ps \<longrightarrow> read_bytes (files s4) q = read_bytes f3 q"
    using upload_loop_frame [OF lp] by simp_all
  have k: "1 \<le> k" "k \<le> length ps"
    using upload_loop_index [OF lp] by simp_all
  have rd: "read_bytes (files s') q =
        (if q \<in> set ps \<or> q = zip_path_of e then None
         else if q = meta_path then Some (csv_bytes rows)
         else read_bytes (files s) q)" for q
  proof (cases "q \<in> set ps \<or> q = zip_path_of e")
    case True
    then show ?thesis by (simp add: s' read_cleanup)
  next
    case False
    then have "read_bytes (files s') q = read_bytes (write_archive e (files s) rows) q"
      using f3 fr(2) by (simp add: s' read_cleanup)
    then show ?thesis
      using False by (simp add: read_write_archive_meta read_write_archive_other)
  qed
  show ?thesis
    using that [OF rows sf k] fr(1) rd by (simp add: s')
qed

subsection \<open>Failed uploads\<close>

text \<open>
  Claim C1. If the upload of a batch is aborted at part \<open>k\<close> (the \<^verbatim>\<open>except\<close> branch is entered
  while part \<open>k\<close> is handled, as it is when the transfer of that part fails), then no row has
  been added to the \<^verbatim>\<open>batches\<close> table, every \<^verbatim>\<open>*.wav\<close> file of the scratch directory is
  still there with its content, the archive file is gone, and so is every part file that
  \<^verbatim>\<open>split_file\<close> had produced; \<open>k\<close> is the number of one of these parts.
\<close>

theorem upload_batch_abort_keeps_recordings:
  assumes "upload_batch e s = (Aborted k, s')"
  shows "batches s' = batches s
         \<and> glob_wav (files s') TEMP_DIR = glob_wav (files s) TEMP_DIR
         \<and> (\<forall>p \<in> set (glob_wav (files s) TEMP_DIR).
               read_bytes (files s') p = read_bytes (files s) p)
         \<and> read_bytes (files s') (zip_path_of e) = None
         \<and> (\<exists>rows ps f3.
               build_rows e (glob_wav (files s) TEMP_DIR) = Inr rows
               \<and> split_file (buffer_size e) (max_alloc e) (write_archive e (files s) rows)
                    (zip_path_of e) CHUNK_SIZE_BYTES = (Inr ps, f3)
               \<and> 1 \<le> k \<and> k \<le> length ps
               \<and> (\<forall>p \<in> set ps. read_bytes (files s') p = None))"
proof -
  obtain rows ps f3 where
    rows: "build_rows e (glob_wav (files s) TEMP_DIR) = Inr rows"
    and sf: "split_file (buffer_size e) (max_alloc e) (write_archive e (files s) rows)
               (zip_path_of e) CHUNK_SIZE_BYTES = (Inr ps, f3)"
    and k: "1 \<le> k" "k \<le> length ps"
    and b: "batches s' = batches s"
    and rd: "\<forall>q. read_bytes (files s') q =
        (if q \<in> set ps \<or> q = zip_path_of e then None
         else if q = meta_path then Some (csv_bytes rows)
         else read_bytes (files s) q)"
    using upload_batch_aborted_files [OF assms] by metis
  have names: "\<forall>p \<in> set ps. \<exists>n. p = part_path (zip_path_of e) n"
    by (rule split_file_zip_names [OF sf])
  have wav: "read_bytes (files s') p = read_bytes (files s) p"
    if "p \<noteq> []" "butlast p = TEMP_DIR" "endswith (last p) ''.wav''" for p
  proof -
    have "p = TEMP_DIR @ [last p]" using that(1,2) by (metis append_butlast_last_id)
    then have bl: "below TEMP_DIR p" by (metis below_def length_append_singleton lessI
          append_eq_conv_conj)
    have "p \<noteq> meta_path"
      using that(3) by (auto simp: meta_path_eq endswith_def)
    moreover have "p \<noteq> zip_path_of e" using bl not_below_zip by metis
    moreover have "p \<notin> set ps" using bl part_notin_scratch(3) [OF names] by metis
    ultimately show ?thesis using rd by simp
  qed
  have g: "glob_wav (files s') TEMP_DIR = glob_wav (files s) TEMP_DIR"
    by (rule glob_wav_cong) (simp add: wav)
  have w: "\<forall>p \<in> set (glob_wav (files s) TEMP_DIR). read_bytes (files s') p = read_bytes (files s) p"
    by (simp add: in_glob_wav wav)
  have z: "read_bytes (files s') (zip_path_of e) = None"
    using rd by simp
  have p: "\<forall>p \<in> set ps. read_bytes (files s') p = None"
    using rd by simp
  show ?thesis
    using b g w z rows sf k p by blast
qed

theorem upload_batch_abort_keeps_recordings_witness:
  "\<exists>s'. upload_batch (ex_env big_archive refusing_second) ex_state = (Aborted 2, s')
        \<and> batches s' = []
        \<and> glob_wav (files s') TEMP_DIR =
            [[''tmp'', ''quran_batch'', ''a.wav''], [''tmp'', ''quran_batch'', ''b.wav''],
             [''tmp'', ''quran_batch'', ''c.wav'']]
        \<and> read_bytes (files s') [''tmp'', ''quran_batch'', ''b.wav''] = Some ''bb''
        \<and> read_bytes (files s') (zip_path_of (ex_env big_archive refusing_second)) = None
        \<and> read_bytes (files s') (part_path (zip_path_of (ex_env big_archive refusing_second)) 1) = None
        \<and> read_bytes (files s') (part_path (zip_path_of (ex_env big_archive refusing_second)) 2) = None
        \<and> read_bytes (files s') (part_path (zip_path_of (ex_env big_archive refusing_second)) 3) = None"
proof -
  let ?e = "ex_env big_archive refusing_second"
  obtain s' where run: "upload_batch ?e ex_state = (Aborted 2, s')"
    using ex_aborts by (cases "upload_batch ?e ex_state") auto
  note th = upload_batch_abort_keeps_recordings [OF run]
  obtain rows ps f3 where
    sf: "split_file (buffer_size ?e) (max_alloc ?e) (write_archive ?e (files ex_state) rows)
           (zip_path_of ?e) CHUNK_SIZE_BYTES = (Inr ps, f3)"
    and gone: "\<forall>p \<in> set ps. read_bytes (files s') p = None"
    using th by blast
  have ps: "ps = [part_path (zip_path_of ?e) 1, part_path (zip_path_of ?e) 2,
                  part_path (zip_path_of ?e) 3]"
    by (rule ex_parts [OF sf])
  have b: "read_bytes (files ex_state) [''tmp'', ''quran_batch'', ''b.wav''] = Some ''bb''"
    by (simp add: ex_state_def read_bytes_def)
  have bw: "[''tmp'', ''quran_batch'', ''b.wav''] \<in> set (glob_wav (files ex_state) TEMP_DIR)"
    unfolding ex_glob by simp
  have "read_bytes (files s') [''tmp'', ''quran_batch'', ''b.wav''] = Some ''bb''"
    using th bw b by metis
  moreover have "batches s' = []"
    using th by (simp add: ex_state_def)
  moreover have "glob_wav (files s') TEMP_DIR =
            [[''tmp'', ''quran_batch'', ''a.wav''], [''tmp'', ''quran_batch'', ''b.wav''],
             [''tmp'', ''quran_batch'', ''c.wav'']]"
    using th ex_glob by simp
  moreover have "read_bytes (files s') (zip_path_of ?e) = None"
    using th by simp
  moreover have "read_bytes (files s') (part_path (zip_path_of ?e) 1) = None"
    "read_bytes (files s') (part_path (zip_path_of ?e) 2) = None"
    "read_bytes (files s') (part_path (zip_path_of ?e) 3) = None"
    using gone unfolding ps by simp_all
  ultimately show ?thesis
    using run by blast
qed

subsection \<open>Committed uploads\<close>

lemma upload_batch_committed_files:
  assumes "upload_batch e s = (Committed, s')"
  obtains rows zs ps f3 where
    "build_rows e (glob_wav (files s) TEMP_DIR) = Inr rows"
    "split_file (buffer_size e) (max_alloc e) (write_archive e (files s) rows) (zip_path_of e)
       CHUNK_SIZE_BYTES = (Inr ps, f3)"
    "batches s' = batches s @
       [\<lparr>batch_name = last (zip_path_of e), file_count = length rows, size_bytes = zs,
         parts = length ps, uploaded_at = utcnow_end e, status = ''uploaded''\<rparr>]"
    "\<forall>q. read_bytes (files s') q =
        (if q \<in> set ps \<or> q = zip_path_of e \<or> below TEMP_DIR q then None
         else read_bytes (files s) q)"
proof -
  obtain rows zs ps f3 s4 where
    rows: "build_rows e (glob_wav (files s) TEMP_DIR) = Inr rows"
    and sf: "split_file (buffer_size e) (max_alloc e) (write_archive e (files s) rows)
               (zip_path_of e) CHUNK_SIZE_BYTES = (Inr ps, f3)"
    and lp: "upload_loop e (strftime (utcnow e)) (length rows) zs (length ps) 1 ps None
               (s\<lparr>files := f3\<rparr>) = (None, s4)"
    and s': "s' = s4\<lparr>batches := batches s4 @
             [\<lparr>batch_name = last (zip_path_of e), file_count = length rows, size_bytes = zs,
               parts = length ps, uploaded_at = utcnow_end e, status = ''uploaded''\<rparr>],
            files := rmtree_mkdir (unlink_missing_ok (files s4) (zip_path_of e)) TEMP_DIR\<rparr>"
    using upload_batch_CommittedD [OF assms] by metis
  have f3: "\<forall>q. q \<notin> set ps \<longrightarrow> read_bytes f3 q = read_bytes (write_archive e (files s) rows) q"
    using split_file_zip_parts [OF sf] by simp
  have b4: "batches s4 = batches s"
    using upload_loop_frame [OF lp] by simp
  have r4: "read_bytes (files s4) q = (if q \<in> set ps then None else read_bytes f3 q)" for q
    using upload_loop_done [OF lp, of q] by simp
  have rd: "read_bytes (files s') q =
        (if q \<in> set ps \<or> q = zip_path_of e \<or> below TEMP_DIR q then None
         else read_bytes (files s) q)" for q
  proof (cases "q \<in> set ps \<or> q = zip_path_of e \<or> below TEMP_DIR q")
    case True
    then show ?thesis
      by (auto simp: s' read_rmtree read_unlink_missing_ok r4)
  next
    case False
    then have "q \<noteq> meta_path" using below_meta by auto
    then show ?thesis
      using False f3 by (simp add: s' read_rmtree read_unlink_missing_ok r4 read_write_archive_other)
  qed
  show ?thesis
    using that [OF rows sf] b4 rd by (simp add: s')
qed

text \<open>
  Claim C4. After a committed run the scratch directory is empty, the archive file is gone,
  and exactly one row has been added to the \<^verbatim>\<open>batches\<close> table; its \<^verbatim>\<open>parts\<close> is the number of
  parts \<^verbatim>\<open>split_file\<close> returned for the archive, its \<^verbatim>\<open>file_count\<close> the number of \<^verbatim>\<open>*.wav\<close> files
  in the scratch directory when the run started.
\<close>

theorem upload_batch_commit_clears:
  assumes "upload_batch e s = (Committed, s')"
  shows "iterdir (files s') TEMP_DIR = [] \<and> rglob_files (files s') TEMP_DIR = []
         \<and> get_batch_size (files s') = 0
         \<and> read_bytes (files s') (zip_path_of e) = None
         \<and> (\<exists>row rows ps f3.
               batches s' = batches s @ [row]
               \<and> build_rows e (glob_wav (files s) TEMP_DIR) = Inr rows
               \<and> split_file (buffer_size e) (max_alloc e) (write_archive e (files s) rows)
                    (zip_path_of e) CHUNK_SIZE_BYTES = (Inr ps, f3)
               \<and> parts row = length ps
               \<and> file_count row = length (glob_wav (files s) TEMP_DIR)
               \<and> status row = ''uploaded'')"
proof -
  obtain rows zs ps f3 where
    rows: "build_rows e (glob_wav (files s) TEMP_DIR) = Inr rows"
    and sf: "split_file (buffer_size e) (max_alloc e) (write_archive e (files s) rows)
               (zip_path_of e) CHUNK_SIZE_BYTES = (Inr ps, f3)"
    and b: "batches s' = batches s @
       [\<lparr>batch_name = last (zip_path_of e), file_count = length rows, size_bytes = zs,
         parts = length ps, uploaded_at = utcnow_end e, status = ''uploaded''\<rparr>]"
    and rd: "\<forall>q. read_bytes (files s') q =
        (if q \<in> set ps \<or> q = zip_path_of e \<or> below TEMP_DIR q then None
         else read_bytes (files s) q)"
    using upload_batch_committed_files [OF assms] by metis
  have em: "\<forall>q. below TEMP_DIR q \<longrightarrow> read_bytes (files s') q = None"
    using rd by simp
  have z: "read_bytes (files s') (zip_path_of e) = None"
    using rd by simp
  let ?row = "\<lparr>batch_name = last (zip_path_of e), file_count = length rows, size_bytes = zs,
         parts = length ps, uploaded_at = utcnow_end e, status = ''uploaded''\<rparr>"
  have r: "parts ?row = length ps" "file_count ?row = length (glob_wav (files s) TEMP_DIR)"
    "status ?row = ''uploaded''"
    using length_build_rows [OF rows] by simp_all
  show ?thesis
    using scratch_empty [OF em] z b rows sf r by blast
qed

theorem upload_batch_commit_clears_witness:
  "\<exists>s' row. upload_batch (ex_env big_archive accepting) ex_state = (Committed, s')
        \<and> iterdir (files s') TEMP_DIR = []
        \<and> get_batch_size (files s') = 0
        \<and> read_bytes (files s') (zip_path_of (ex_env big_archive accepting)) = None
        \<and> batches s' = [row] \<and> parts row = 3 \<and> file_count row = 3"
proof -
  let ?e = "ex_env big_archive accepting"
  obtain s' where run: "upload_batch ?e ex_state = (Committed, s')"
    using ex_commits [of big_archive] by (cases "upload_batch ?e ex_state") auto
  note th = upload_batch_commit_clears [OF run]
  obtain row rows ps f3 where
    b: "batches s' = batches ex_state @ [row]"
    and sf: "split_file (buffer_size ?e) (max_alloc ?e) (write_archive ?e (files ex_state) rows)
           (zip_path_of ?e) CHUNK_SIZE_BYTES = (Inr ps, f3)"
    and p: "parts row = length ps"
    and c: "file_count row = length (glob_wav (files ex_state) TEMP_DIR)"
    using th by blast
  have "length ps = 3" unfolding ex_parts [OF sf] by simp
  then have "parts row = 3" using p by simp
  moreover have "file_count row = 3" using c unfolding ex_glob by simp
  moreover have "batches s' = [row]" using b by (simp add: ex_state_def)
  ultimately show ?thesis
    using run th by blast
qed

subsection \<open>An empty archive\<close>

lemma buffered_read_empty:
  assumes "0 \<le> n" and "n \<le> SSIZE_MAX - BYTES_HEADER" and "nat n \<le> M" and "buffered h = []"
  shows "\<exists>h'. buffered_read B M n [] h = Inr ([], h')"
  using assms by (simp add: buffered_read_def Let_def BYTES_HEADER_def)

lemma split_file_empty:
  assumes "read_bytes f src = Some []" and "0 \<le> c" and "c \<le> SSIZE_MAX - BYTES_HEADER"
    and "nat c \<le> M"
  shows "split_file B M f src c = (Inr [], f)"
proof -
  have fc: "file_content f src = []"
    using assms(1) by (simp add: file_content_def)
  obtain h' where "buffered_read B M c (file_content f src) \<lparr>buffered = [], raw_pos = 0\<rparr>
                   = Inr ([], h')"
    using buffered_read_empty [OF assms(2-4), of "\<lparr>buffered = [], raw_pos = 0\<rparr>" B]
    unfolding fc by auto
  then have "split_loop B M src c \<lparr>buffered = [], raw_pos = 0\<rparr> f 1 [] = (Inr [], f)"
    by (rule split_loop_stop)
  then show ?thesis
    using assms(1) by (simp add: split_file_def)
qed

text \<open>
  Claim C9. If the archive that was written has zero bytes (and a buffer of the chunk size can
  be allocated for the read), \<^verbatim>\<open>split_file\<close> returns no parts, the upload loop makes no call,
  and the run still commits: one row with \<^verbatim>\<open>parts = 0\<close> is added to \<^verbatim>\<open>batches\<close> and the scratch
  directory is cleared. The store is assumed to answer the lookups and to accept the insert.
\<close>

theorem empty_archive_commits:
  assumes "build_rows e (glob_wav (files s) TEMP_DIR) = Inr rows"
    and "read_bytes (write_archive e (files s) rows) (zip_path_of e) = Some []"
    and "nat CHUNK_SIZE_BYTES \<le> max_alloc e"
    and "\<forall>row. insert_batch e row"
  shows "\<exists>s' row.
           split_file (buffer_size e) (max_alloc e) (write_archive e (files s) rows)
             (zip_path_of e) CHUNK_SIZE_BYTES = (Inr [], write_archive e (files s) rows)
           \<and> upload_batch e s = (Committed, s')
           \<and> sent s' = sent s
           \<and> batches s' = batches s @ [row] \<and> parts row = 0 \<and> file_count row = length rows
           \<and> iterdir (files s') TEMP_DIR = [] \<and> get_batch_size (files s') = 0"
proof -
  let ?f2 = "write_archive e (files s) rows"
  let ?row = "\<lparr>batch_name = last (zip_path_of e), file_count = length rows, size_bytes = 0,
         parts = 0, uploaded_at = utcnow_end e, status = ''uploaded''\<rparr>"
  let ?s' = "s\<lparr>files := rmtree_mkdir (unlink_missing_ok ?f2 (zip_path_of e)) TEMP_DIR,
               batches := batches s @ [?row]\<rparr>"
  have c0: "0 \<le> CHUNK_SIZE_BYTES" using chunk_size_pos by simp
  have sf: "split_file (buffer_size e) (max_alloc e) ?f2 (zip_path_of e) CHUNK_SIZE_BYTES
            = (Inr [], ?f2)"
    by (rule split_file_empty [OF assms(2) c0 chunk_size_fits assms(3)])
  have zs: "st_size ?f2 (zip_path_of e) = Some 0"
    using assms(2) by (simp add: st_size_def)
  have run: "upload_batch e s = (Committed, ?s')"
    unfolding upload_batch_def Let_def
    using assms(1,4) zs sf by simp
  have em: "\<forall>q. below TEMP_DIR q \<longrightarrow> read_bytes (files ?s') q = None"
    by (simp add: read_rmtree)
  have "sent ?s' = sent s" "batches ?s' = batches s @ [?row]" "parts ?row = 0"
    "file_count ?row = length rows"
    by simp_all
  then show ?thesis
    using sf run scratch_empty(1,3) [OF em] by blast
qed

theorem empty_archive_commits_witness:
  "build_rows (ex_env [] accepting) (glob_wav (files ex_state) TEMP_DIR)
     = Inr [(''a.wav'', ''alif''), (''b.wav'', []), (''c.wav'', [])]
   \<and> read_bytes (write_archive (ex_env [] accepting) (files ex_state)
                   [(''a.wav'', ''alif''), (''b.wav'', []), (''c.wav'', [])])
        (zip_path_of (ex_env [] accepting)) = Some []
   \<and> nat CHUNK_SIZE_BYTES \<le> max_alloc (ex_env [] accepting)
   \<and> (\<forall>row. insert_batch (ex_env [] accepting) row)
   \<and> (\<exists>s' row. upload_batch (ex_env [] accepting) ex_state = (Committed, s')
          \<and> sent s' = [] \<and> batches s' = [row] \<and> parts row = 0 \<and> file_count row = 3
          \<and> iterdir (files s') TEMP_DIR = [])"
proof -
  let ?e = "ex_env [] accepting"
  let ?rows = "[(''a.wav'', ''alif''), (''b.wav'', []), (''c.wav'', [])]"
  have h1: "build_rows ?e (glob_wav (files ex_state) TEMP_DIR) = Inr ?rows"
    by (rule ex_rows)
  have h2: "read_bytes (write_archive ?e (files ex_state) ?rows) (zip_path_of ?e) = Some []"
    by (rule ex_archive)
  have h3: "nat CHUNK_SIZE_BYTES \<le> max_alloc ?e"
    by (rule ex_env_fits)
  have h4: "\<forall>row. insert_batch ?e row"
    by (simp add: ex_env_def)
  obtain s' row where "upload_batch ?e ex_state = (Committed, s')" "sent s' = sent ex_state"
    "batches s' = batches ex_state @ [row]" "parts row = 0" "file_count row = length ?rows"
    "iterdir (files s') TEMP_DIR = []"
    using empty_archive_commits [OF h1 h2 h3 h4] by blast
  then have "\<exists>s' row. upload_batch ?e ex_state = (Committed, s')
          \<and> sent s' = [] \<and> batches s' = [row] \<and> parts row = 0 \<and> file_count row = 3
          \<and> iterdir (files s') TEMP_DIR = []"
    by (auto simp: ex_state_def)
  then show ?thesis
    using h1 h2 h3 h4 by blast
qed

subsection \<open>The calls made on the channel\<close>

lemma upload_loop_answers:
  assumes "upload_loop e ts nr zs tp i ps fm s = (r, s')"
  shows "\<exists>calls. sent s' = sent s @ calls
           \<and> (\<forall>j < length calls.
                 snd (calls ! j) = send_document e (sent s @ take j calls) (fst (calls ! j)))
           \<and> (r = None \<longrightarrow> (\<forall>j < length calls. snd (calls ! j) \<noteq> None))"
  using assms
proof (induction ps arbitrary: i fm s)
  case Nil
  then show ?case by simp
next
  case (Cons part rest)
  from Cons.prems show ?case
  proof (cases rule: upload_loop_Cons_cases)
    case Missing
    then show ?thesis by simp
  next
    case (Refused doc call)
    then show ?thesis
      by (intro exI [of _ "[(call, None)]"]) simp
  next
    case (Sent doc call mid)
    let ?s1 = "s\<lparr>sent := sent s @ [(call, Some mid)], files := unlink_missing_ok (files s) part\<rparr>"
    obtain calls where c: "sent s' = sent ?s1 @ calls"
      "\<forall>j < length calls.
          snd (calls ! j) = send_document e (sent ?s1 @ take j calls) (fst (calls ! j))"
      "r = None \<longrightarrow> (\<forall>j < length calls. snd (calls ! j) \<noteq> None)"
      using Cons.IH [OF Sent(6)] by auto
    let ?calls = "(call, Some mid) # calls"
    have a: "sent s' = sent s @ ?calls" using c(1) by simp
    have b: "snd (?calls ! j) = send_document e (sent s @ take j ?calls) (fst (?calls ! j))"
      if "j < length ?calls" for j
    proof (cases j)
      case 0
      then show ?thesis using Sent(5) by simp
    next
      case (Suc j')
      then have "j' < length calls" using that by simp
      then show ?thesis using c(2) Suc by simp
    qed
    have d: "snd (?calls ! j) \<noteq> None" if "r = None" "j < length ?calls" for j
    proof (cases j)
      case 0
      then show ?thesis by simp
    next
      case (Suc j')
      then have "j' < length calls" using that by simp
      then show ?thesis using c(3) that(1) Suc by simp
    qed
    show ?thesis
      using a b d by blast
  qed
qed

lemma upload_batch_sent_cases:
  assumes "upload_batch e s = (out, s')"
  shows "(sent s' = sent s \<and> out \<noteq> Committed)
         \<or> (\<exists>rows zs ps f3 r s4.
               split_file (buffer_size e) (max_alloc e) (write_archive e (files s) rows)
                 (zip_path_of e) CHUNK_SIZE_BYTES = (Inr ps, f3)
               \<and> upload_loop e (strftime (utcnow e)) (length rows) zs (length ps) 1 ps None
                    (s\<lparr>files := f3\<rparr>) = (r, s4)
               \<and> sent s' = sent s4
               \<and> (out = Committed \<longrightarrow>
                     r = None \<and> batches s4 = batches s \<and>
                     (\<exists>row. batches s' = batches s @ [row] \<and> parts row = length ps)))"
proof (cases "build_rows e (glob_wav (files s) TEMP_DIR)")
  case (Inl err)
  then show ?thesis
    using assms by (auto simp: upload_batch_def Let_def)
next
  case (Inr rows)
  let ?f2 = "write_archive e (files s) rows"
  show ?thesis
  proof (cases "st_size ?f2 (zip_path_of e)")
    case None
    then show ?thesis
      using assms Inr by (auto simp: upload_batch_def Let_def)
  next
    case (Some zs)
    obtain res f3 where sf: "split_file (buffer_size e) (max_alloc e) ?f2 (zip_path_of e)
                               CHUNK_SIZE_BYTES = (res, f3)"
      by (cases "split_file (buffer_size e) (max_alloc e) ?f2 (zip_path_of e) CHUNK_SIZE_BYTES")
    show ?thesis
    proof (cases res)
      case (Inl err)
      then show ?thesis
        using assms Inr Some sf by (auto simp: upload_batch_def Let_def)
    next
      case ps: (Inr ps)
      obtain r s4 where lp: "upload_loop e (strftime (utcnow e)) (length rows) zs (length ps) 1
                               ps None (s\<lparr>files := f3\<rparr>) = (r, s4)"
        by (cases "upload_loop e (strftime (utcnow e)) (length rows) zs (length ps) 1
                               ps None (s\<lparr>files := f3\<rparr>)")
      have b4: "batches s4 = batches s"
        using upload_loop_frame [OF lp] by simp
      have "sent s' = sent s4 \<and> (out = Committed \<longrightarrow>
                     r = None \<and> (\<exists>row. batches s' = batches s @ [row] \<and> parts row = length ps))"
        using assms Inr Some sf ps lp b4
        by (cases r) (auto simp: upload_batch_def Let_def split: if_splits)
      then show ?thesis
        using sf ps lp b4 by blast
    qed
  qed
qed

text \<open>
  Claim C6. The calls a run makes on the channel are, in order, for part 1, part 2, and so
  on (the file name of the \<open>j\<close>-th call is the name of part \<open>j\<close>). The first call carries no
  parent reference; every later call carries, as its reply-to parent, the message identifier
  the channel returned for the first call. A committed run has made one call for each of its
  parts, each of them answered.
\<close>

theorem reply_threading:
  assumes "upload_batch e s = (out, s')"
  shows "\<exists>calls. sent s' = sent s @ calls
           \<and> (\<forall>j < length calls.
                 sc_filename (fst (calls ! j))
                   = ''batch_'' @ strftime (utcnow e) @ part_suffix (j + 1)
                 \<and> snd (calls ! j) = send_document e (sent s @ take j calls) (fst (calls ! j))
                 \<and> sc_reply_to (fst (calls ! j)) = (if j = 0 then None else snd (calls ! 0))
                 \<and> (0 < j \<longrightarrow> snd (calls ! 0) \<noteq> None))
           \<and> (out = Committed \<longrightarrow>
                 (\<exists>row. batches s' = batches s @ [row] \<and> length calls = parts row)
                 \<and> (\<forall>j < length calls. snd (calls ! j) \<noteq> None))"
proof -
  consider (none) "sent s' = sent s" "out \<noteq> Committed"
    | (loop) rows zs ps f3 r s4 where
        "split_file (buffer_size e) (max_alloc e) (write_archive e (files s) rows)
           (zip_path_of e) CHUNK_SIZE_BYTES = (Inr ps, f3)"
        "upload_loop e (strftime (utcnow e)) (length rows) zs (length ps) 1 ps None
           (s\<lparr>files := f3\<rparr>) = (r, s4)"
        "sent s' = sent s4"
        "out = Committed \<longrightarrow> r = None \<and> batches s4 = batches s \<and>
           (\<exists>row. batches s' = batches s @ [row] \<and> parts row = length ps)"
    using upload_batch_sent_cases [OF assms] by blast
  then show ?thesis
  proof cases
    case none
    then show ?thesis by (intro exI [of _ "[]"]) simp
  next
    case loop
    have ps: "ps = map (part_path (zip_path_of e)) [1..<1 + length ps]"
      using split_file_zip_parts [OF loop(1)] by simp
    obtain calls where c: "sent s4 = sent (s\<lparr>files := f3\<rparr>) @ calls" "length calls \<le> length ps"
      "r = None \<longrightarrow> length calls = length ps"
      "\<forall>j < length calls.
          sc_filename (fst (calls ! j)) = last (ps ! j)
          \<and> read_bytes (files (s\<lparr>files := f3\<rparr>)) (ps ! j) \<noteq> None
          \<and> sc_reply_to (fst (calls ! j)) =
              (if 1 + j = 1 then None else if (1::nat) = 1 then snd (calls ! 0) else None)
          \<and> (j + 1 < length calls \<longrightarrow> snd (calls ! j) \<noteq> None)"
      using upload_loop_sent [OF loop(2)] by auto
    obtain calls' where c': "sent s4 = sent (s\<lparr>files := f3\<rparr>) @ calls'"
      "\<forall>j < length calls'.
          snd (calls' ! j) = send_document e (sent (s\<lparr>files := f3\<rparr>) @ take j calls') (fst (calls' ! j))"
      "r = None \<longrightarrow> (\<forall>j < length calls'. snd (calls' ! j) \<noteq> None)"
      using upload_loop_answers [OF loop(2)] by auto
    have same: "calls' = calls" using c(1) c'(1) by simp
    have a: "sent s' = sent s @ calls" using loop(3) c(1) by simp
    have b: "sc_filename (fst (calls ! j)) = ''batch_'' @ strftime (utcnow e) @ part_suffix (j + 1)
          \<and> snd (calls ! j) = send_document e (sent s @ take j calls) (fst (calls ! j))
          \<and> sc_reply_to (fst (calls ! j)) = (if j = 0 then None else snd (calls ! 0))
          \<and> (0 < j \<longrightarrow> snd (calls ! 0) \<noteq> None)"
      if j: "j < length calls" for j
    proof -
      have jl: "j < length ps" using j c(2) by simp
      have "ps ! j = map (part_path (zip_path_of e)) [1..<1 + length ps] ! j"
        using ps by simp
      also have "\<dots> = part_path (zip_path_of e) (1 + j)"
        using jl by (simp del: upt_Suc)
      finally have "last (ps ! j) = ''batch_'' @ strftime (utcnow e) @ part_suffix (j + 1)"
        by (simp add: part_path_zip)
      then have f1: "sc_filename (fst (calls ! j))
                       = ''batch_'' @ strftime (utcnow e) @ part_suffix (j + 1)"
        using c(4) j by simp
      have f2: "snd (calls ! j) = send_document e (sent s @ take j calls) (fst (calls ! j))"
        using c'(2) j unfolding same by simp
      have f3: "sc_reply_to (fst (calls ! j)) = (if j = 0 then None else snd (calls ! 0))"
        using c(4) j by simp
      have f4: "snd (calls ! 0) \<noteq> None" if "0 < j"
      proof -
        have "0 < length calls" "0 + 1 < length calls" using that j by auto
        then show ?thesis using c(4) by blast
      qed
      show ?thesis
        using f1 f2 f3 f4 by simp
    qed
    have d: "out = Committed \<longrightarrow>
                 (\<exists>row. batches s' = batches s @ [row] \<and> length calls = parts row)
                 \<and> (\<forall>j < length calls. snd (calls ! j) \<noteq> None)"
    proof
      assume oc: "out = Committed"
      then have rn: "r = None" and ex: "\<exists>row. batches s' = batches s @ [row] \<and> parts row = length ps"
        using loop(4) by simp_all
      have len: "length calls = length ps" using c(3) rn by simp
      have ans: "\<forall>j < length calls. snd (calls ! j) \<noteq> None"
        using c'(3) rn unfolding same by simp
      obtain row where "batches s' = batches s @ [row]" "parts row = length ps"
        using ex by auto
      then have "batches s' = batches s @ [row] \<and> length calls = parts row"
        using len by simp
      then show "(\<exists>row. batches s' = batches s @ [row] \<and> length calls = parts row)
                 \<and> (\<forall>j < length calls. snd (calls ! j) \<noteq> None)"
        using ans by (intro conjI exI [of _ row]) simp_all
    qed
    show ?thesis
    proof (intro exI [of _ calls] conjI)
      show "sent s' = sent s @ calls" by (rule a)
      show "\<forall>j < length calls.
                 sc_filename (fst (calls ! j))
                   = ''batch_'' @ strftime (utcnow e) @ part_suffix (j + 1)
                 \<and> snd (calls ! j) = send_document e (sent s @ take j calls) (fst (calls ! j))
                 \<and> sc_reply_to (fst (calls ! j)) = (if j = 0 then None else snd (calls ! 0))
                 \<and> (0 < j \<longrightarrow> snd (calls ! 0) \<noteq> None)"
        using b by (intro allI impI)
      show "out = Committed \<longrightarrow>
                 (\<exists>row. batches s' = batches s @ [row] \<and> length calls = parts row)
                 \<and> (\<forall>j < length calls. snd (calls ! j) \<noteq> None)"
        by (rule d)
    qed
  qed
qed


theorem reply_threading_witness:
  "\<exists>s' c1 c2 c3.
      upload_batch (ex_env big_archive accepting) ex_state = (Committed, s')
      \<and> sent s' = [(c1, Some 100), (c2, Some 101), (c3, Some 102)]
      \<and> sc_filename c1 = ''batch_20240102_030405.part001''
      \<and> sc_filename c2 = ''batch_20240102_030405.part002''
      \<and> sc_filename c3 = ''batch_20240102_030405.part003''
      \<and> sc_reply_to c1 = None \<and> sc_reply_to c2 = Some 100 \<and> sc_reply_to c3 = Some 100"
proof -
  let ?e = "ex_env big_archive accepting"
  obtain s' where ub: "upload_batch ?e ex_state = (Committed, s')"
    using ex_commits [of big_archive] by (cases "upload_batch ?e ex_state") simp
  obtain calls row where c: "sent s' = sent ex_state @ calls"
    "\<forall>j < length calls.
        sc_filename (fst (calls ! j)) = ''batch_'' @ strftime (utcnow ?e) @ part_suffix (j + 1)
        \<and> snd (calls ! j) = send_document ?e (sent ex_state @ take j calls) (fst (calls ! j))
        \<and> sc_reply_to (fst (calls ! j)) = (if j = 0 then None else snd (calls ! 0))
        \<and> (0 < j \<longrightarrow> snd (calls ! 0) \<noteq> None)"
    "batches s' = batches ex_state @ [row]" "length calls = parts row"
    using reply_threading [OF ub] by auto
  obtain rows zs ps f3 s4 where r:
    "split_file (buffer_size ?e) (max_alloc ?e) (write_archive ?e (files ex_state) rows)
       (zip_path_of ?e) CHUNK_SIZE_BYTES = (Inr ps, f3)"
    "upload_loop ?e (strftime (utcnow ?e)) (length rows) zs (length ps) 1 ps None
       (ex_state\<lparr>files := f3\<rparr>) = (None, s4)"
    "s' = s4\<lparr>batches := batches s4 @
             [\<lparr>batch_name = last (zip_path_of ?e), file_count = length rows, size_bytes = zs,
               parts = length ps, uploaded_at = utcnow_end ?e, status = ''uploaded''\<rparr>],
            files := rmtree_mkdir (unlink_missing_ok (files s4) (zip_path_of ?e)) TEMP_DIR\<rparr>"
    by (rule upload_batch_CommittedD [OF ub])
  have "batches s4 = batches ex_state"
    using upload_loop_frame [OF r(2)] by simp
  then have "batches s' = batches ex_state @
             [\<lparr>batch_name = last (zip_path_of ?e), file_count = length rows, size_bytes = zs,
               parts = length ps, uploaded_at = utcnow_end ?e, status = ''uploaded''\<rparr>]"
    unfolding r(3) by simp
  then have "row = \<lparr>batch_name = last (zip_path_of ?e), file_count = length rows,
               size_bytes = zs, parts = length ps, uploaded_at = utcnow_end ?e,
               status = ''uploaded''\<rparr>"
    unfolding c(3) by simp
  then have "parts row = length ps" by simp
  moreover have "length ps = 3" using ex_parts [OF r(1)] by simp
  ultimately have len: "length calls = 3" using c(4) by simp
  have l0: "(0::nat) < length calls" and l1: "(1::nat) < length calls"
    and l2: "(2::nat) < length calls"
    using len by simp_all
  have ts: "strftime (utcnow ?e) = ''20240102_030405''"
    by (simp add: ex_env_def ex_clock_def strftime_def zfill_def dec.simps digit_char_def)
  have p1: "part_suffix (0 + 1) = ''.part001''" and p2: "part_suffix (1 + 1) = ''.part002''"
    and p3: "part_suffix (2 + 1) = ''.part003''"
    by (simp_all add: part_suffix_def zfill_def dec.simps digit_char_def numeral_2_eq_2)
  have sd: "send_document ?e h call = Some (100 + int (length h))" for h call
    by (simp add: ex_env_def accepting_def)
  have e0: "sent ex_state = []" by (simp add: ex_state_def)
  have a0: "snd (calls ! 0) = Some 100"
    using c(2) l0 sd e0 by simp
  have a1: "snd (calls ! 1) = Some 101"
  proof -
    have "snd (calls ! 1) = send_document ?e (sent ex_state @ take 1 calls) (fst (calls ! 1))"
      using c(2) l1 by blast
    then show ?thesis unfolding sd e0 using len by simp
  qed
  have a2: "snd (calls ! 2) = Some 102"
  proof -
    have "snd (calls ! 2) = send_document ?e (sent ex_state @ take 2 calls) (fst (calls ! 2))"
      using c(2) l2 by blast
    then show ?thesis unfolding sd e0 using len by simp
  qed
  have n0: "sc_filename (fst (calls ! 0)) = ''batch_20240102_030405.part001''"
  proof -
    have "sc_filename (fst (calls ! 0)) = ''batch_'' @ strftime (utcnow ?e) @ part_suffix (0 + 1)"
      using c(2) l0 by blast
    then show ?thesis unfolding ts p1 by simp
  qed
  have n1: "sc_filename (fst (calls ! 1)) = ''batch_20240102_030405.part002''"
  proof -
    have "sc_filename (fst (calls ! 1)) = ''batch_'' @ strftime (utcnow ?e) @ part_suffix (1 + 1)"
      using c(2) l1 by blast
    then show ?thesis unfolding ts p2 by simp
  qed
  have n2: "sc_filename (fst (calls ! 2)) = ''batch_20240102_030405.part003''"
  proof -
    have "sc_filename (fst (calls ! 2)) = ''batch_'' @ strftime (utcnow ?e) @ part_suffix (2 + 1)"
      using c(2) l2 by blast
    then show ?thesis unfolding ts p3 by simp
  qed
  have r0: "sc_reply_to (fst (calls ! 0)) = None"
    using c(2) l0 by simp
  have r1: "sc_reply_to (fst (calls ! 1)) = Some 100"
  proof -
    have "sc_reply_to (fst (calls ! 1)) = (if (1::nat) = 0 then None else snd (calls ! 0))"
      using c(2) l1 by blast
    then show ?thesis using a0 by simp
  qed
  have r2: "sc_reply_to (fst (calls ! 2)) = Some 100"
  proof -
    have "sc_reply_to (fst (calls ! 2)) = (if (2::nat) = 0 then None else snd (calls ! 0))"
      using c(2) l2 by blast
    then show ?thesis using a0 by simp
  qed
  obtain x y z where xyz: "calls = [x, y, z]"
    using len by (auto simp: length_Suc_conv numeral_3_eq_3)
  have sx: "snd x = Some 100" "snd y = Some 101" "snd z = Some 102"
    using a0 a1 a2 unfolding xyz by simp_all
  have nx: "sc_filename (fst x) = ''batch_20240102_030405.part001''"
    "sc_filename (fst y) = ''batch_20240102_030405.part002''"
    "sc_filename (fst z) = ''batch_20240102_030405.part003''"
    using n0 n1 n2 unfolding xyz by simp_all
  have rx: "sc_reply_to (fst x) = None" "sc_reply_to (fst y) = Some 100"
    "sc_reply_to (fst z) = Some 100"
    using r0 r1 r2 unfolding xyz by simp_all
  have "sent s' = [x, y, z]"
    using c(1) e0 xyz by simp
  also have "\<dots> = [(fst x, Some 100), (fst y, Some 101), (fst z, Some 102)]"
    using sx by (simp add: prod_eq_iff)
  finally have "sent s' = [(fst x, Some 100), (fst y, Some 101), (fst z, Some 102)]" .
  then show ?thesis
    using ub nx rx by blast
qed

subsection \<open>The manifest after a failed upload\<close>

text \<open>
  Claim C10. After an aborted upload the manifest \<^verbatim>\<open>metadata.csv\<close> is still in the scratch
  directory, holding the rows of this attempt, and \<^verbatim>\<open>get_batch_size\<close> counts it: the pending
  total is the total of the files that were in the scratch directory before the attempt,
  an older manifest apart, plus the size of the manifest.
\<close>

theorem failed_upload_leaves_manifest:
  assumes "upload_batch e s = (Aborted k, s')"
  shows "\<exists>rows. build_rows e (glob_wav (files s) TEMP_DIR) = Inr rows
           \<and> read_bytes (files s') meta_path = Some (csv_bytes rows)
           \<and> meta_path \<in> set (iterdir (files s') TEMP_DIR)
           \<and> meta_path \<in> set (rglob_files (files s') TEMP_DIR)
           \<and> get_batch_size (files s') =
               get_batch_size (unlink_missing_ok (files s) meta_path) + length (csv_bytes rows)
           \<and> get_batch_size (files s') =
               get_batch_size (unlink_missing_ok (files s') meta_path) + length (csv_bytes rows)"
proof -
  obtain rows ps f3 where
    rows: "build_rows e (glob_wav (files s) TEMP_DIR) = Inr rows"
    and sf: "split_file (buffer_size e) (max_alloc e) (write_archive e (files s) rows)
               (zip_path_of e) CHUNK_SIZE_BYTES = (Inr ps, f3)"
    and rd: "\<forall>q. read_bytes (files s') q =
        (if q \<in> set ps \<or> q = zip_path_of e then None
         else if q = meta_path then Some (csv_bytes rows)
         else read_bytes (files s) q)"
    using upload_batch_aborted_files [OF assms] by metis
  have names: "\<forall>p \<in> set ps. \<exists>n. p = part_path (zip_path_of e) n"
    by (rule split_file_zip_names [OF sf])
  have out: "q \<notin> set ps \<and> q \<noteq> zip_path_of e" if "below TEMP_DIR q" for q
    using that part_notin_scratch(3) [OF names] not_below_zip by metis
  have m: "read_bytes (files s') meta_path = Some (csv_bytes rows)"
    using rd out [OF below_meta] by simp
  have i1: "meta_path \<in> set (iterdir (files s') TEMP_DIR)"
    by (simp add: in_iterdir m) (simp add: meta_path_eq TEMP_DIR_def)
  have i2: "meta_path \<in> set (rglob_files (files s') TEMP_DIR)"
    by (simp add: rglob_files_def set_files_of m below_meta)
  have g1: "get_batch_size (files s') =
            get_batch_size (unlink_missing_ok (files s) meta_path) + length (csv_bytes rows)"
    by (rule get_batch_size_add [OF below_meta])
      (use rd out in \<open>simp_all add: read_unlink_missing_ok\<close>)
  have g2: "get_batch_size (files s') =
            get_batch_size (unlink_missing_ok (files s') meta_path) + length (csv_bytes rows)"
    by (rule get_batch_size_add [OF below_meta])
      (use rd out in \<open>simp_all add: read_unlink_missing_ok\<close>)
  show ?thesis
    using rows m i1 i2 g1 g2 by blast
qed

theorem failed_upload_leaves_manifest_witness:
  "\<exists>s'. upload_batch (ex_env big_archive refusing_second) ex_state = (Aborted 2, s')
        \<and> read_bytes (files s') meta_path
            = Some (csv_bytes [(''a.wav'', ''alif''), (''b.wav'', []), (''c.wav'', [])])
        \<and> get_batch_size (files ex_state) = 6
        \<and> get_batch_size (files s') = 62"
proof -
  let ?e = "ex_env big_archive refusing_second"
  obtain s' where run: "upload_batch ?e ex_state = (Aborted 2, s')"
    using ex_aborts by (cases "upload_batch ?e ex_state") auto
  obtain rows where
    rows: "build_rows ?e (glob_wav (files ex_state) TEMP_DIR) = Inr rows"
    and m: "read_bytes (files s') meta_path = Some (csv_bytes rows)"
    and g: "get_batch_size (files s') =
            get_batch_size (unlink_missing_ok (files ex_state) meta_path) + length (csv_bytes rows)"
    using failed_upload_leaves_manifest [OF run] by blast
  have r: "rows = [(''a.wav'', ''alif''), (''b.wav'', []), (''c.wav'', [])]"
    using rows ex_rows [of big_archive refusing_second] by simp
  have l: "length (csv_bytes [(''a.wav'', ''alif''), (''b.wav'', []), (''c.wav'', [])]) = 56"
    by (simp add: csv_bytes_def csv_row_def csv_field_def needs_quote_def)
  have g0: "get_batch_size (files ex_state) = 6"
    by (simp add: get_batch_size_def rglob_files_def files_of_def ex_state_def below_def
        TEMP_DIR_def read_bytes_def)
  have g1: "get_batch_size (unlink_missing_ok (files ex_state) meta_path) = 6"
    by (simp add: get_batch_size_def rglob_files_def files_of_def ex_state_def below_def
        TEMP_DIR_def read_bytes_def unlink_missing_ok_def meta_path_eq AList.delete_eq)
  show ?thesis
    using run m g g0 unfolding r l g1 by auto
qed

subsection \<open>The rows of the manifest\<close>


lemma build_rows_names: "build_rows e wavs = Inr rows \<Longrightarrow> map fst rows = map last wavs"
  by (induction wavs arbitrary: rows) (auto split: select_result.splits sum.splits)

lemma append_le_append: "(xs @ ys \<le> xs @ zs) = (ys \<le> (zs :: 'a :: linorder list))"
  by (induction xs) simp_all

lemma sorted_names:
  assumes "sorted ps" and "\<forall>p \<in> set ps. p \<noteq> [] \<and> butlast p = d"
  shows "sorted (map last (ps :: path list))"
proof -
  have "last p \<le> last q" if "p \<in> set ps" "q \<in> set ps" "p \<le> q" for p q
  proof -
    have "p = d @ [last p]" "q = d @ [last q]"
      using that(1,2) assms(2) by (metis append_butlast_last_id)+
    then have "d @ [last p] \<le> d @ [last q]" using that(3) by simp
    then show ?thesis unfolding append_le_append by (auto simp: le_less)
  qed
  then have "sorted_wrt (\<lambda>p q. last p \<le> last q) ps"
    using assms(1) by (rule_tac sorted_wrt_mono_rel [where P = "(\<le>)"]) auto
  then show ?thesis by (simp add: sorted_map)
qed

lemma distinct_names:
  assumes "distinct ps" and "\<forall>p \<in> set ps. p \<noteq> [] \<and> butlast p = d"
  shows "distinct (map last ps)"
proof -
  have "inj_on last (set ps)"
  proof (rule inj_onI)
    fix p q assume "p \<in> set ps" "q \<in> set ps" "last p = last q"
    then show "p = q"
      using assms(2) by (metis append_butlast_last_id)
  qed
  then show ?thesis using assms(1) by (simp add: distinct_map)
qed

lemma glob_wav_sorted: "sorted (glob_wav f d)" "distinct (glob_wav f d)"
  by (simp_all add: glob_wav_def sorted_distinct_iterdir sorted_wrt_filter)

text \<open>
  Claim C7. The manifest has one row per \<^verbatim>\<open>*.wav\<close> file of the scratch directory, in ascending
  order of file name, no name twice; the file written is the byte-order mark, the header row
  \<^verbatim>\<open>filename,raw_transcript\<close> and then these rows, in this order.
\<close>

theorem manifest_rows_sorted:
  assumes "build_rows e (glob_wav (files s) TEMP_DIR) = Inr rows"
  shows "sorted (map fst rows) \<and> distinct (map fst rows)
         \<and> set (map fst rows) = {name. endswith name ''.wav''
                                      \<and> read_bytes (files s) (TEMP_DIR @ [name]) \<noteq> None}
         \<and> read_bytes (write_archive e (files s) rows) meta_path
             = Some ([CHR 0xEF, CHR 0xBB, CHR 0xBF] @ ''filename,raw_transcript'' @ [CHR 0x0D, CHR 0x0A]
                     @ concat (map (\<lambda>(fn, tr). csv_row fn tr) rows))"
proof -
  let ?wavs = "glob_wav (files s) TEMP_DIR"
  have names: "map fst rows = map last ?wavs" by (rule build_rows_names [OF assms])
  have dir: "\<forall>p \<in> set ?wavs. p \<noteq> [] \<and> butlast p = TEMP_DIR"
    by (simp add: in_glob_wav)
  have a: "sorted (map fst rows)"
    unfolding names by (rule sorted_names [OF glob_wav_sorted(1) dir])
  have b: "distinct (map fst rows)"
    unfolding names by (rule distinct_names [OF glob_wav_sorted(2) dir])
  have c: "set (map fst rows) = {name. endswith name ''.wav''
                                      \<and> read_bytes (files s) (TEMP_DIR @ [name]) \<noteq> None}"
  proof (intro set_eqI iffI)
    fix name assume "name \<in> set (map fst rows)"
    then obtain p where p: "p \<in> set ?wavs" "name = last p"
      unfolding names by auto
    then have "p = TEMP_DIR @ [name]" "endswith name ''.wav''" "read_bytes (files s) p \<noteq> None"
      using append_butlast_last_id [of p] by (auto simp: in_glob_wav)
    then show "name \<in> {name. endswith name ''.wav''
                        \<and> read_bytes (files s) (TEMP_DIR @ [name]) \<noteq> None}"
      by simp
  next
    fix name assume "name \<in> {name. endswith name ''.wav''
                        \<and> read_bytes (files s) (TEMP_DIR @ [name]) \<noteq> None}"
    then have "TEMP_DIR @ [name] \<in> set ?wavs"
      by (simp add: in_glob_wav)
    then have "name \<in> last ` set ?wavs"
      by force
    then show "name \<in> set (map fst rows)"
      unfolding names by simp
  qed
  have hdr: "csv_row ''filename'' ''raw_transcript''
               = ''filename,raw_transcript'' @ [CHR 0x0D, CHR 0x0A]"
    by (simp add: csv_row_def csv_field_def needs_quote_def)
  have d: "read_bytes (write_archive e (files s) rows) meta_path
             = Some ([CHR 0xEF, CHR 0xBB, CHR 0xBF] @ ''filename,raw_transcript'' @ [CHR 0x0D, CHR 0x0A]
                     @ concat (map (\<lambda>(fn, tr). csv_row fn tr) rows))"
    unfolding read_write_archive_meta csv_bytes_def hdr by simp
  show ?thesis
    using a b c d by simp
qed

theorem manifest_rows_sorted_witness:
  "files ex_state = [([''tmp'', ''quran_batch'', ''b.wav''], ''bb''),
                     ([''tmp'', ''quran_batch'', ''a.wav''], ''a''),
                     ([''tmp'', ''quran_batch'', ''c.wav''], ''ccc'')]
   \<and> build_rows (ex_env [] accepting) (glob_wav (files ex_state) TEMP_DIR)
       = Inr [(''a.wav'', ''alif''), (''b.wav'', []), (''c.wav'', [])]
   \<and> sorted [''a.wav'', ''b.wav'', ''c.wav'']
   \<and> read_bytes (write_archive (ex_env [] accepting) (files ex_state)
                   [(''a.wav'', ''alif''), (''b.wav'', []), (''c.wav'', [])]) meta_path
       = Some ([CHR 0xEF, CHR 0xBB, CHR 0xBF]
               @ ''filename,raw_transcript'' @ [CHR 0x0D, CHR 0x0A]
               @ ''a.wav,alif'' @ [CHR 0x0D, CHR 0x0A]
               @ ''b.wav,'' @ [CHR 0x0D, CHR 0x0A]
               @ ''c.wav,'' @ [CHR 0x0D, CHR 0x0A])"
proof -
  have cr: "csv_row ''a.wav'' ''alif'' = ''a.wav,alif'' @ [CHR 0x0D, CHR 0x0A]"
    "csv_row ''b.wav'' [] = ''b.wav,'' @ [CHR 0x0D, CHR 0x0A]"
    "csv_row ''c.wav'' [] = ''c.wav,'' @ [CHR 0x0D, CHR 0x0A]"
    by (simp_all add: csv_row_def csv_field_def needs_quote_def)
  show ?thesis
    using manifest_rows_sorted [OF ex_rows [of "[]" accepting]]
    by (simp add: ex_rows cr) (simp add: ex_state_def)
qed




end
